theory Spec2Isabelle
  imports Main "HOL-Library.Sublist" "HOL-Library.Char_ord" "HOL-Library.List_Lexorder"
begin

section \<open>The graph store: \<^verbatim>\<open>automation/graph/knowledge_graph.py\<close>\<close>

text \<open>
  The store is an SQLite database with two tables, \<^verbatim>\<open>nodes\<close> and \<^verbatim>\<open>edges\<close>. A table is
  modelled as the list of its rows in rowid order. The \<^verbatim>\<open>properties\<close> column holds the
  JSON text of a Python dict with string keys; \<^verbatim>\<open>json.loads\<close> gives back the dict that
  \<^verbatim>\<open>json.dumps\<close> was given, so the column is modelled as the dict itself, a finite map
  from keys to JSON values (floats are left out).

  \<^verbatim>\<open>CURRENT_TIMESTAMP\<close> is an input of every statement that writes: each operation takes
  the clock reading \<open>now\<close> as an argument. The integer primary key of an edge row is never
  read by the program and is the position of the row in the list.
\<close>

datatype json = JNull | JBool bool | JInt int | JStr string | JList "json list"

type_synonym props = "string \<rightharpoonup> json"

type_synonym timestamp = nat

record node =
  nid :: string
  ntype :: string
  properties :: props
  created_at :: timestamp
  updated_at :: timestamp

record edge =
  from_id :: string
  to_id :: string
  relationship :: string
  eproperties :: props
  ecreated_at :: timestamp

record graph =
  nodes :: "node list"
  edges :: "edge list"

text \<open>The exceptions the modelled code raises, with their messages or keys.\<close>

datatype error = ValueError string | KeyError string | IndexError

text \<open>\<^verbatim>\<open>_init_schema\<close> on a fresh database file: both tables exist and are empty.\<close>

definition empty_graph :: graph where
  "empty_graph = \<lparr>nodes = [], edges = []\<rparr>"

text \<open>
  \<^verbatim>\<open>add_node\<close>: \<^verbatim>\<open>INSERT OR REPLACE INTO nodes (id, type, properties, updated_at)\<close>.
  On a primary-key conflict SQLite deletes the old row and inserts the new one, which gets
  a fresh rowid and the column default for \<^verbatim>\<open>created_at\<close>. The keyword arguments arrive in
  the body as the dict \<open>props\<close> (Python rejects a call whose keywords repeat the name of a
  positional parameter before the body runs, so no such key reaches it).
\<close>

definition add_node :: "graph \<Rightarrow> timestamp \<Rightarrow> string \<Rightarrow> string \<Rightarrow> props \<Rightarrow> string \<times> graph" where
  "add_node g now node_type node_id props =
     (let full_id = node_type @ '':'' @ node_id in
      (full_id,
       g\<lparr>nodes := filter (\<lambda>n. nid n \<noteq> full_id) (nodes g) @
          [\<lparr>nid = full_id, ntype = node_type, properties = props,
            created_at = now, updated_at = now\<rparr>]\<rparr>))"

text \<open>\<^verbatim>\<open>get_node\<close>: \<^verbatim>\<open>SELECT * FROM nodes WHERE id = ?\<close> and \<^verbatim>\<open>fetchone\<close>.\<close>

definition get_node :: "graph \<Rightarrow> string \<Rightarrow> node option" where
  "get_node g node_id = find (\<lambda>n. nid n = node_id) (nodes g)"

text \<open>
  \<^verbatim>\<open>update_node\<close>: raises \<^verbatim>\<open>ValueError\<close> when the node is absent, before any statement
  runs; otherwise \<^verbatim>\<open>current_props.update(properties)\<close> and an \<^verbatim>\<open>UPDATE\<close> of the row. The
  result pairs the outcome with the store as the call leaves it.
\<close>

definition update_node :: "graph \<Rightarrow> timestamp \<Rightarrow> string \<Rightarrow> props \<Rightarrow> (error + unit) \<times> graph" where
  "update_node g now node_id props =
     (case get_node g node_id of
        None \<Rightarrow> (Inl (ValueError (''Node not found: '' @ node_id)), g)
      | Some n \<Rightarrow>
          (let current_props = properties n ++ props in
           (Inr (),
            g\<lparr>nodes := map (\<lambda>m. if nid m = node_id
                                  then m\<lparr>properties := current_props, updated_at := now\<rparr>
                                  else m) (nodes g)\<rparr>)))"

text \<open>
  \<^verbatim>\<open>add_edge\<close>: \<^verbatim>\<open>INSERT OR IGNORE INTO edges\<close> under the table's
  \<^verbatim>\<open>UNIQUE(from_id, to_id, relationship)\<close>: a row whose triple is already there is
  dropped. Foreign keys are not enforced (SQLite's default), so neither end has to exist.
\<close>

definition edge_key :: "edge \<Rightarrow> string \<times> string \<times> string" where
  "edge_key e = (from_id e, to_id e, relationship e)"

definition add_edge :: "graph \<Rightarrow> timestamp \<Rightarrow> string \<Rightarrow> string \<Rightarrow> string \<Rightarrow> props \<Rightarrow> graph" where
  "add_edge g now f t r props =
     (if (f, t, r) \<in> set (map edge_key (edges g)) then g
      else g\<lparr>edges := edges g @
             [\<lparr>from_id = f, to_id = t, relationship = r, eproperties = props,
               ecreated_at = now\<rparr>]\<rparr>)"

text \<open>The table constraint \<^verbatim>\<open>UNIQUE(from_id, to_id, relationship)\<close> as a predicate on stores.\<close>

definition unique_edges :: "graph \<Rightarrow> bool" where
  "unique_edges g = distinct (map edge_key (edges g))"

section \<open>Traversal: \<^verbatim>\<open>find_related\<close> and \<^verbatim>\<open>find_dependents\<close>\<close>

text \<open>
  \<^verbatim>\<open>find_related\<close> runs one \<^verbatim>\<open>SELECT n.* FROM nodes n JOIN edges e ON (e.to_id = n.id OR
  e.from_id = n.id) WHERE (e.from_id = ? OR e.to_id = ?)\<close>, with \<^verbatim>\<open>AND e.relationship = ?\<close>
  when the \<open>relationship\<close> argument is truthy (neither \<^verbatim>\<open>None\<close> nor the empty string). The
  result has one row for every pair of a node row and an edge row that passes both
  conditions, and each row is returned as a dict of \<^verbatim>\<open>id\<close>, \<^verbatim>\<open>type\<close> and \<^verbatim>\<open>properties\<close>. SQL
  leaves the order of the rows to the query plan; the model lists them edge by edge, and
  what is proved of the result below does not depend on the order.
\<close>

record related =
  rid :: string
  rtype :: string
  rproperties :: props

text \<open>The dict that the loop over the cursor builds from a row.\<close>

definition node_row :: "node \<Rightarrow> related" where
  "node_row n = \<lparr>rid = nid n, rtype = ntype n, rproperties = properties n\<rparr>"

definition relationship_matches :: "string option \<Rightarrow> edge \<Rightarrow> bool" where
  "relationship_matches rel e =
     (case rel of None \<Rightarrow> True | Some r \<Rightarrow> r = [] \<or> relationship e = r)"

definition find_related :: "graph \<Rightarrow> string \<Rightarrow> string option \<Rightarrow> related list" where
  "find_related g node_id rel =
     [node_row n.
        e \<leftarrow> edges g,
        (from_id e = node_id \<or> to_id e = node_id) \<and> relationship_matches rel e,
        n \<leftarrow> nodes g,
        to_id e = nid n \<or> from_id e = nid n]"

text \<open>
  \<^verbatim>\<open>SELECT to_id FROM edges WHERE from_id = ?\<close>: one entry for every edge row that leaves
  the node. The statement has no \<^verbatim>\<open>ORDER BY\<close>; SQLite answers it from the index of
  \<^verbatim>\<open>UNIQUE(from_id, to_id, relationship)\<close>, which covers it, so the entries come sorted by
  \<^verbatim>\<open>to_id\<close> and not in the order of insertion. The columns have the binary collation:
  texts are compared byte by byte, a proper prefix first, which is the lexicographic order
  of strings. Rows with the same target differ in nothing that the result shows.
\<close>

definition outgoing :: "edge list \<Rightarrow> string \<Rightarrow> string list" where
  "outgoing es current_id = sort (map to_id (filter (\<lambda>e. from_id e = current_id) es))"

text \<open>
  The \<^verbatim>\<open>while to_visit\<close> loop of \<^verbatim>\<open>find_dependents\<close>, on its three variables. The loop is
  not structurally recursive (the queue grows), so a run that never leaves the loop is the
  value \<open>None\<close>. The inner \<^verbatim>\<open>for\<close> loop does not change \<open>visited\<close>, so it appends the
  targets that pass its test in one step.
\<close>

partial_function (option) find_dependents_loop ::
  "edge list \<Rightarrow> int \<Rightarrow> string set \<Rightarrow> (string \<times> int) list \<Rightarrow> string list \<Rightarrow> string list option"
where
  "find_dependents_loop es max_depth visited to_visit dependents =
     (case to_visit of
        [] \<Rightarrow> Some dependents
      | (current_id, depth) # rest \<Rightarrow>
          if current_id \<in> visited \<or> depth \<ge> max_depth
          then find_dependents_loop es max_depth visited rest dependents
          else
            (let visited' = insert current_id visited;
                 new = filter (\<lambda>dependent_id. dependent_id \<notin> visited')
                         (outgoing es current_id)
             in find_dependents_loop es max_depth visited'
                  (rest @ map (\<lambda>dependent_id. (dependent_id, depth + 1)) new)
                  (dependents @ new)))"

definition find_dependents :: "graph \<Rightarrow> string \<Rightarrow> int \<Rightarrow> string list option" where
  "find_dependents g node_id max_depth =
     find_dependents_loop (edges g) max_depth {} [(node_id, 0)] []"

section \<open>Text extraction: \<^verbatim>\<open>automation/graph/event_handler.py\<close>\<close>

text \<open>
  Texts are ASCII strings. \<^verbatim>\<open>str.lower\<close> maps the 26 capital letters and leaves every
  other character as it is.
\<close>

definition lower_char :: "char \<Rightarrow> char" where
  "lower_char c =
     (case map_of (zip ''ABCDEFGHIJKLMNOPQRSTUVWXYZ'' ''abcdefghijklmnopqrstuvwxyz'') c of
        None \<Rightarrow> c | Some l \<Rightarrow> l)"

definition lower :: "string \<Rightarrow> string" where
  "lower s = map lower_char s"

text \<open>The keyword table of \<^verbatim>\<open>extract_concepts_from_text\<close>, in the order of the dict.\<close>

definition keyword_table :: "(string \<times> string) list" where
  "keyword_table =
     [(''Storage API'', ''Concept:StorageAPI''),
      (''Jobs API'', ''Concept:JobsAPI''),
      (''Stack URL'', ''Concept:StackURL''),
      (''Project ID'', ''Concept:ProjectID''),
      (''Token'', ''Concept:Authentication''),
      (''Input Mapping'', ''Concept:InputMapping''),
      (''Output Mapping'', ''Concept:OutputMapping''),
      (''Custom Python'', ''Concept:CustomPython''),
      (''Streamlit'', ''Concept:Streamlit''),
      (''Flow'', ''Concept:Flows'')]"

text \<open>
  The function returns a Python set, which the callers only iterate. A set is modelled
  as a list without duplicates; Python does not fix the iteration order of a set of
  strings, and the model takes the order of the table.
\<close>

definition extract_concepts_from_text :: "string \<Rightarrow> string list" where
  "extract_concepts_from_text text =
     (let text_lower = lower text
      in remdups (map snd (filter (\<lambda>(keyword, concept_id). sublist (lower keyword) text_lower)
                             keyword_table)))"

text \<open>
  An alternation of literal words, tried from the left. In both patterns below the
  alternatives begin with different letters, so at most one of them matches at a position.
\<close>

fun match_alt :: "string list \<Rightarrow> string \<Rightarrow> (string \<times> string) option" where
  "match_alt [] s = None"
| "match_alt (a # as) s =
     (if prefix a s then Some (a, drop (length a) s) else match_alt as s)"

text \<open>The character class \<^verbatim>\<open>[\w/\-]\<close> on ASCII text.\<close>

definition path_char :: "char \<Rightarrow> bool" where
  "path_char c =
     (c \<in> set ''abcdefghijklmnopqrstuvwxyzABCDEFGHIJKLMNOPQRSTUVWXYZ0123456789_/-'')"

text \<open>
  One attempt of \<^verbatim>\<open>(?:docs|skills)/[\w/\-]+\.(?:md|py|yaml)\<close> at the head of a text: the
  matched text and what follows it. The class does not contain the dot, so the greedy run
  can only be followed by the dot when it is taken whole.
\<close>

definition match_file :: "string \<Rightarrow> (string \<times> string) option" where
  "match_file s =
     (case match_alt [''docs'', ''skills''] s of
        None \<Rightarrow> None
      | Some (d, r1) \<Rightarrow>
          (case r1 of
             [] \<Rightarrow> None
           | c # r2 \<Rightarrow>
               if c \<noteq> CHR ''/'' then None
               else
                 (let run = takeWhile path_char r2; r3 = dropWhile path_char r2
                  in if run = [] then None
                     else
                       (case r3 of
                          [] \<Rightarrow> None
                        | c' # r4 \<Rightarrow>
                            if c' \<noteq> CHR ''.'' then None
                            else
                              (case match_alt [''md'', ''py'', ''yaml''] r4 of
                                 None \<Rightarrow> None
                               | Some (x, r5) \<Rightarrow> Some (d @ ''/'' @ run @ ''.'' @ x, r5))))))"

lemma match_alt_shorter: "match_alt as s = Some (a, r) \<Longrightarrow> length r \<le> length s"
  by (induction as) (auto split: if_splits)

lemma match_file_shorter: "match_file s = Some (m, r) \<Longrightarrow> length r < length s"
proof -
  have drop_le: "length (dropWhile P xs) \<le> length xs" for P and xs :: string
    by (induction xs) auto
  assume "match_file s = Some (m, r)"
  then obtain d r1 c r2 c' r4 x where
    a: "match_alt [''docs'', ''skills''] s = Some (d, r1)" and b: "r1 = c # r2" and
    c: "dropWhile path_char r2 = c' # r4" and d: "match_alt [''md'', ''py'', ''yaml''] r4 = Some (x, r)"
    unfolding match_file_def
    by (auto simp: Let_def split: option.splits list.splits if_splits prod.splits)
  from match_alt_shorter[OF a] match_alt_shorter[OF d] drop_le[of path_char r2] b c
  show ?thesis by simp
qed

text \<open>\<^verbatim>\<open>re.findall\<close>: the matches from left to right, each search starting where the last
  match ended.\<close>

function findall_files :: "string \<Rightarrow> string list" where
  "findall_files [] = []"
| "findall_files (c # cs) =
     (case match_file (c # cs) of
        None \<Rightarrow> findall_files cs
      | Some (m, r) \<Rightarrow> m # findall_files r)"
  by pat_completeness auto

termination
  by (relation "measure length") (auto dest: match_file_shorter)

definition extract_files_from_text :: "string \<Rightarrow> string list" where
  "extract_files_from_text text = remdups (findall_files text)"

text \<open>
  The pattern \<^verbatim>\<open>(?:fixes|closes|resolves)\s+#(\d+)\<close> of \<^verbatim>\<open>handle_pr_created\<close>, whose matches
  \<^verbatim>\<open>re.findall\<close> reports by their one group, the digits. On ASCII text \<^verbatim>\<open>\s\<close> is the blank,
  the characters 9 to 13 and 28 to 31, and \<^verbatim>\<open>\d\<close> is a decimal digit.
\<close>

definition space_char :: "char \<Rightarrow> bool" where
  "space_char c =
     (c \<in> set [CHR '' '', CHR 0x09, CHR 0x0A, CHR 0x0B, CHR 0x0C, CHR 0x0D,
                CHR 0x1C, CHR 0x1D, CHR 0x1E, CHR 0x1F])"

definition digit_char :: "char \<Rightarrow> bool" where
  "digit_char c = (c \<in> set ''0123456789'')"

definition match_fixes :: "string \<Rightarrow> (string \<times> string) option" where
  "match_fixes s =
     (case match_alt [''fixes'', ''closes'', ''resolves''] s of
        None \<Rightarrow> None
      | Some (kw, r1) \<Rightarrow>
          (let ws = takeWhile space_char r1; r2 = dropWhile space_char r1
           in if ws = [] then None
              else
                (case r2 of
                   [] \<Rightarrow> None
                 | c # r3 \<Rightarrow>
                     if c \<noteq> CHR ''#'' then None
                     else
                       (let ds = takeWhile digit_char r3; r4 = dropWhile digit_char r3
                        in if ds = [] then None else Some (ds, r4)))))"

lemma match_fixes_shorter: "match_fixes s = Some (m, r) \<Longrightarrow> length r < length s"
proof -
  have drop_le: "length (dropWhile P xs) \<le> length xs" for P and xs :: string
    by (induction xs) auto
  assume "match_fixes s = Some (m, r)"
  then obtain kw r1 c r3 where
    a: "match_alt [''fixes'', ''closes'', ''resolves''] s = Some (kw, r1)" and
    b: "dropWhile space_char r1 = c # r3" and c: "r = dropWhile digit_char r3"
    unfolding match_fixes_def
    by (auto simp: Let_def split: option.splits list.splits if_splits prod.splits)
  from match_alt_shorter[OF a] drop_le[of space_char r1] drop_le[of digit_char r3] b c
  show ?thesis by simp
qed

function findall_fixes :: "string \<Rightarrow> string list" where
  "findall_fixes [] = []"
| "findall_fixes (c # cs) =
     (case match_fixes (c # cs) of
        None \<Rightarrow> findall_fixes cs
      | Some (ds, r) \<Rightarrow> ds # findall_fixes r)"
  by pat_completeness auto

termination
  by (relation "measure length") (auto dest: match_fixes_shorter)

section \<open>The event handlers\<close>

text \<open>
  \<^verbatim>\<open>str\<close> of an integer, as the f-strings and \<^verbatim>\<open>str(issue_number)\<close> produce it.
\<close>

fun nat_digits :: "nat \<Rightarrow> string" where
  "nat_digits n =
     (if n < 10 then [''0123456789'' ! n]
      else nat_digits (n div 10) @ [''0123456789'' ! (n mod 10)])"

declare nat_digits.simps [simp del]

definition str_int :: "int \<Rightarrow> string" where
  "str_int i = (if i < 0 then CHR ''-'' # nat_digits (nat (- i)) else nat_digits (nat i))"

text \<open>
  The payloads are the JSON objects of the tracker's API. A field that the handler
  subscripts is \<open>None\<close> when the key is missing (the subscript then raises
  \<^verbatim>\<open>KeyError\<close>); a field read with \<^verbatim>\<open>.get\<close> is \<open>None\<close> when the default applies. A label
  is given by its \<^verbatim>\<open>name\<close>, a changed file by its \<^verbatim>\<open>filename\<close>.

  The handlers print a trace, which is left out. Every statement that a handler executes
  reads the clock for itself: \<open>clk k\<close> is the reading at statement number \<open>k\<close> of the
  call, and the loops carry the number of the next statement. The result of a handler
  pairs the outcome with the store as the call leaves it, so the writes made before an
  exception stay visible.
\<close>

type_synonym clock = "nat \<Rightarrow> timestamp"

record issue_data =
  i_title :: "string option"
  i_body :: "string option"
  i_labels :: "string list option"
  i_html_url :: "string option"
  i_created_at :: "string option"

record pr_data =
  p_title :: "string option"
  p_body :: "string option"
  p_html_url :: "string option"
  p_created_at :: "string option"
  p_additions :: "int option"
  p_deletions :: "int option"
  p_changed_files :: "string list option"

text \<open>\<^verbatim>\<open>concept_id.split(":")[1]\<close>: the text between the first colon and the next one.\<close>

definition split_colon_1 :: "string \<Rightarrow> error + string" where
  "split_colon_1 s =
     (case dropWhile (\<lambda>c. c \<noteq> CHR '':'') s of
        [] \<Rightarrow> Inl IndexError
      | _ # r \<Rightarrow> Inr (takeWhile (\<lambda>c. c \<noteq> CHR '':'') r))"

text \<open>The loop \<^verbatim>\<open>for concept_id in concepts\<close> of \<^verbatim>\<open>handle_issue_created\<close>.\<close>

fun link_concepts ::
  "graph \<Rightarrow> clock \<Rightarrow> nat \<Rightarrow> string \<Rightarrow> string list \<Rightarrow> (error + unit) \<times> graph" where
  "link_concepts g clk k issue_id [] = (Inr (), g)"
| "link_concepts g clk k issue_id (concept_id # cs) =
     (case split_colon_1 concept_id of
        Inl e \<Rightarrow> (Inl e, g)
      | Inr concept_name \<Rightarrow>
          (let g1 = snd (add_node g (clk k) ''Concept'' concept_name
                           [''name'' \<mapsto> JStr concept_name]);
               g2 = add_edge g1 (clk (k + 1)) issue_id concept_id ''ABOUT'' Map.empty
           in link_concepts g2 clk (k + 2) issue_id cs))"

text \<open>The loop \<^verbatim>\<open>for file_path in files\<close> of \<^verbatim>\<open>handle_issue_created\<close>.\<close>

fun link_documents :: "graph \<Rightarrow> clock \<Rightarrow> nat \<Rightarrow> string \<Rightarrow> string list \<Rightarrow> graph" where
  "link_documents g clk k issue_id [] = g"
| "link_documents g clk k issue_id (file_path # fs) =
     (let g1 = snd (add_node g (clk k) ''Document'' file_path [''path'' \<mapsto> JStr file_path]);
          doc_id = ''Document:'' @ file_path;
          g2 = add_edge g1 (clk (k + 1)) issue_id doc_id ''ABOUT'' Map.empty
      in link_documents g2 clk (k + 2) issue_id fs)"

definition handle_issue_created ::
  "graph \<Rightarrow> clock \<Rightarrow> int \<Rightarrow> issue_data \<Rightarrow> (error + unit) \<times> graph" where
  "handle_issue_created g clk issue_number d =
     (case i_title d of
        None \<Rightarrow> (Inl (KeyError ''title''), g)
      | Some title \<Rightarrow>
     (case i_html_url d of
        None \<Rightarrow> (Inl (KeyError ''html_url''), g)
      | Some url \<Rightarrow>
     (case i_created_at d of
        None \<Rightarrow> (Inl (KeyError ''created_at''), g)
      | Some created \<Rightarrow>
          (let body = (case i_body d of None \<Rightarrow> [] | Some b \<Rightarrow> b);
               labels = (case i_labels d of None \<Rightarrow> [] | Some ls \<Rightarrow> ls);
               (issue_id, g1) =
                  add_node g (clk 0) ''Issue'' (str_int issue_number)
                    [''number'' \<mapsto> JInt issue_number,
                     ''title'' \<mapsto> JStr title,
                     ''body'' \<mapsto> JStr body,
                     ''status'' \<mapsto> JStr ''open'',
                     ''labels'' \<mapsto> JList (map JStr labels),
                     ''url'' \<mapsto> JStr url,
                     ''created_at'' \<mapsto> JStr created];
               full_text = title @ '' '' @ body;
               concepts = extract_concepts_from_text full_text
           in case link_concepts g1 clk 1 issue_id concepts of
                (Inl e, g2) \<Rightarrow> (Inl e, g2)
              | (Inr u, g2) \<Rightarrow>
                  (let files = extract_files_from_text full_text
                   in (Inr (),
                       link_documents g2 clk (1 + 2 * length concepts) issue_id files))))))"

definition handle_issue_closed :: "graph \<Rightarrow> clock \<Rightarrow> int \<Rightarrow> (error + unit) \<times> graph" where
  "handle_issue_closed g clk issue_number =
     (let issue_id = ''Issue:'' @ str_int issue_number
      in update_node g (clk 0) issue_id [''status'' \<mapsto> JStr ''closed''])"

text \<open>The loops \<^verbatim>\<open>for issue_num in matches\<close> and \<^verbatim>\<open>for file_info in pr_data["changed_files"]\<close>
  of \<^verbatim>\<open>handle_pr_created\<close>.\<close>

fun link_fixed_issues :: "graph \<Rightarrow> clock \<Rightarrow> nat \<Rightarrow> string \<Rightarrow> string list \<Rightarrow> graph" where
  "link_fixed_issues g clk k pr_id [] = g"
| "link_fixed_issues g clk k pr_id (issue_num # ms) =
     (let issue_id = ''Issue:'' @ issue_num
      in link_fixed_issues (add_edge g (clk k) issue_id pr_id ''FIXED_BY'' Map.empty)
           clk (k + 1) pr_id ms)"

fun link_modified_files :: "graph \<Rightarrow> clock \<Rightarrow> nat \<Rightarrow> string \<Rightarrow> string list \<Rightarrow> graph" where
  "link_modified_files g clk k pr_id [] = g"
| "link_modified_files g clk k pr_id (file_path # fs) =
     (let g1 = snd (add_node g (clk k) ''Document'' file_path [''path'' \<mapsto> JStr file_path]);
          doc_id = ''Document:'' @ file_path;
          g2 = add_edge g1 (clk (k + 1)) pr_id doc_id ''MODIFIES'' Map.empty
      in link_modified_files g2 clk (k + 2) pr_id fs)"

definition handle_pr_created ::
  "graph \<Rightarrow> clock \<Rightarrow> int \<Rightarrow> pr_data \<Rightarrow> (error + unit) \<times> graph" where
  "handle_pr_created g clk pr_number d =
     (case p_title d of
        None \<Rightarrow> (Inl (KeyError ''title''), g)
      | Some title \<Rightarrow>
     (case p_html_url d of
        None \<Rightarrow> (Inl (KeyError ''html_url''), g)
      | Some url \<Rightarrow>
     (case p_created_at d of
        None \<Rightarrow> (Inl (KeyError ''created_at''), g)
      | Some created \<Rightarrow>
          (let body = (case p_body d of None \<Rightarrow> [] | Some b \<Rightarrow> b);
               (pr_id, g1) =
                  add_node g (clk 0) ''PullRequest'' (str_int pr_number)
                    [''number'' \<mapsto> JInt pr_number,
                     ''title'' \<mapsto> JStr title,
                     ''body'' \<mapsto> JStr body,
                     ''status'' \<mapsto> JStr ''open'',
                     ''url'' \<mapsto> JStr url,
                     ''created_at'' \<mapsto> JStr created,
                     ''additions'' \<mapsto> JInt (case p_additions d of None \<Rightarrow> 0 | Some a \<Rightarrow> a),
                     ''deletions'' \<mapsto> JInt (case p_deletions d of None \<Rightarrow> 0 | Some a \<Rightarrow> a)];
               full_text = title @ '' '' @ body;
               matches = findall_fixes (lower full_text);
               g2 = link_fixed_issues g1 clk 1 pr_id matches
           in case p_changed_files d of
                None \<Rightarrow> (Inr (), g2)
              | Some files \<Rightarrow>
                  (Inr (), link_modified_files g2 clk (1 + length matches) pr_id files)))))"

text \<open>
  The loop \<^verbatim>\<open>for node in related\<close> of \<^verbatim>\<open>handle_pr_merged\<close>, over the rows that
  \<^verbatim>\<open>find_related\<close> returned before the loop started. The subscript
  \<^verbatim>\<open>node["properties"]["number"]\<close> comes after the update.
\<close>

fun close_issues ::
  "graph \<Rightarrow> clock \<Rightarrow> nat \<Rightarrow> related list \<Rightarrow> (error + unit) \<times> graph" where
  "close_issues g clk k [] = (Inr (), g)"
| "close_issues g clk k (node # rest) =
     (if rtype node = ''Issue'' then
        (case update_node g (clk k) (rid node) [''status'' \<mapsto> JStr ''closed''] of
           (Inl e, g1) \<Rightarrow> (Inl e, g1)
         | (Inr u, g1) \<Rightarrow>
             (case rproperties node ''number'' of
                None \<Rightarrow> (Inl (KeyError ''number''), g1)
              | Some issue_num \<Rightarrow> close_issues g1 clk (k + 1) rest))
      else close_issues g clk k rest)"

text \<open>
  The set \<^verbatim>\<open>affected_skills\<close>: the dependents, to the default depth 3, of every row of
  \<^verbatim>\<open>modified_docs\<close> whose id starts with \<^verbatim>\<open>Skill:\<close>. The program prints the set; the model
  returns it as the handler's report.
\<close>

fun affected_skills :: "graph \<Rightarrow> related list \<Rightarrow> string list option" where
  "affected_skills g [] = Some []"
| "affected_skills g (doc # docs) =
     (case find_dependents g (rid doc) 3 of
        None \<Rightarrow> None
      | Some dependents \<Rightarrow>
          (case affected_skills g docs of
             None \<Rightarrow> None
           | Some skills \<Rightarrow> Some (filter (prefix ''Skill:'') dependents @ skills)))"

definition handle_pr_merged ::
  "graph \<Rightarrow> clock \<Rightarrow> int \<Rightarrow> ((error + string list) \<times> graph) option" where
  "handle_pr_merged g clk pr_number =
     (let pr_id = ''PullRequest:'' @ str_int pr_number
      in case update_node g (clk 0) pr_id [''status'' \<mapsto> JStr ''merged''] of
           (Inl e, g1) \<Rightarrow> Some (Inl e, g1)
         | (Inr u, g1) \<Rightarrow>
             (let related = find_related g1 pr_id (Some ''FIXED_BY'')
              in case close_issues g1 clk 1 related of
                   (Inl e, g2) \<Rightarrow> Some (Inl e, g2)
                 | (Inr u', g2) \<Rightarrow>
                     (let modified_docs = find_related g2 pr_id (Some ''MODIFIES'')
                      in case affected_skills g2 modified_docs of
                           None \<Rightarrow> None
                         | Some skills \<Rightarrow> Some (Inr (remdups skills), g2))))"

section \<open>Stores used as examples\<close>

text \<open>Small stores, built with the operations of the store itself.\<close>

definition cycle_graph :: graph where
  "cycle_graph =
     add_edge (add_edge (add_edge empty_graph 0 ''A'' ''B'' ''INCLUDES'' Map.empty)
       0 ''B'' ''C'' ''INCLUDES'' Map.empty) 0 ''C'' ''A'' ''INCLUDES'' Map.empty"

definition single_edge_graph :: graph where
  "single_edge_graph = add_edge empty_graph 0 ''A'' ''B'' ''INCLUDES'' Map.empty"

text \<open>Two edges out of A, the one to C inserted before the one to B.\<close>

definition reversed_fork_graph :: graph where
  "reversed_fork_graph =
     add_edge (add_edge empty_graph 0 ''A'' ''C'' ''INCLUDES'' Map.empty)
       0 ''A'' ''B'' ''INCLUDES'' Map.empty"

definition diamond_graph :: graph where
  "diamond_graph =
     add_edge (add_edge (add_edge (add_edge empty_graph 0 ''A'' ''B'' ''INCLUDES'' Map.empty)
       0 ''A'' ''C'' ''INCLUDES'' Map.empty) 0 ''B'' ''D'' ''INCLUDES'' Map.empty)
       0 ''C'' ''D'' ''INCLUDES'' Map.empty"

definition double_link_graph :: graph where
  "double_link_graph =
     add_edge
       (add_edge
          (snd (add_node (snd (add_node empty_graph 0 ''Issue'' ''1'' Map.empty))
                  0 ''Document'' ''a'' Map.empty))
          0 ''Issue:1'' ''Document:a'' ''ABOUT'' Map.empty)
       0 ''Issue:1'' ''Document:a'' ''EXPLAINS'' Map.empty"

text \<open>The issue payload of the specification's end-to-end scenario, and the properties
  that \<^verbatim>\<open>handle_issue_created\<close> stores for issue 42 from it.\<close>

definition scenario_issue :: "string \<Rightarrow> string \<Rightarrow> issue_data" where
  "scenario_issue url created =
     \<lparr>i_title = Some ''Storage API token error'',
      i_body = Some ''See docs/keboola/auth.md'',
      i_labels = Some [],
      i_html_url = Some url,
      i_created_at = Some created\<rparr>"

definition scenario_issue_props :: "string \<Rightarrow> string \<Rightarrow> props" where
  "scenario_issue_props url created =
     [''number'' \<mapsto> JInt 42,
      ''title'' \<mapsto> JStr ''Storage API token error'',
      ''body'' \<mapsto> JStr ''See docs/keboola/auth.md'',
      ''status'' \<mapsto> JStr ''open'',
      ''labels'' \<mapsto> JList [],
      ''url'' \<mapsto> JStr url,
      ''created_at'' \<mapsto> JStr created]"

text \<open>The store after that issue event on the empty store, and a pull-request payload
  that refers to the issue and changes the document.\<close>

definition scenario_store :: graph where
  "scenario_store =
     snd (handle_issue_created empty_graph (\<lambda>k. 1) 42 (scenario_issue ''u'' ''c''))"

definition scenario_pr :: pr_data where
  "scenario_pr =
     \<lparr>p_title = Some ''Fix auth docs'',
      p_body = Some ''fixes #42'',
      p_html_url = Some ''v'',
      p_created_at = Some ''w'',
      p_additions = Some 3,
      p_deletions = None,
      p_changed_files = Some [''docs/keboola/auth.md'']\<rparr>"

section \<open>Auxiliary definitions of the proofs\<close>

text \<open>
  The measure of the loop: the ids that are queued or are the target of an edge and have
  not been visited, and then the length of the queue. A skipped entry shortens the queue
  and adds no id; a visited entry takes its id out of the first set for good.
\<close>

definition unvisited :: "edge list \<Rightarrow> string set \<Rightarrow> (string \<times> int) list \<Rightarrow> nat" where
  "unvisited es v q = card ((fst ` set q \<union> to_id ` set es) - v)"

text \<open>The rows that one edge row contributes to the join of \<^verbatim>\<open>find_related\<close>.\<close>

definition edge_rows :: "node list \<Rightarrow> edge \<Rightarrow> related list" where
  "edge_rows ns e = map node_row (filter (\<lambda>n. to_id e = nid n \<or> from_id e = nid n) ns)"

text \<open>
  Every node of type \<open>Issue\<close> carries the \<open>number\<close> property, as \<^verbatim>\<open>handle_issue_created\<close>
  writes it; \<^verbatim>\<open>handle_pr_merged\<close> subscripts it on every issue it closes.
\<close>

definition issues_numbered :: "graph \<Rightarrow> bool" where
  "issues_numbered g =
     list_all (\<lambda>n. ntype n \<noteq> ''Issue'' \<or> properties n ''number'' \<noteq> None) (nodes g)"

text \<open>The row that a merge-update of the status leaves, and what a query shows of it.\<close>

definition set_status :: "string \<Rightarrow> timestamp \<Rightarrow> node \<Rightarrow> node" where
  "set_status s now n =
     n\<lparr>properties := properties n ++ [''status'' \<mapsto> JStr s], updated_at := now\<rparr>"

definition with_status :: "string \<Rightarrow> related \<Rightarrow> related" where
  "with_status s r = r\<lparr>rproperties := rproperties r ++ [''status'' \<mapsto> JStr s]\<rparr>"

section \<open>Properties of the store\<close>

lemma find_filter_append_new:
  "find (\<lambda>n. nid n = i) (filter (\<lambda>n. nid n \<noteq> i) xs @ [x]) = (if nid x = i then Some x else None)"
  by (induction xs) auto

lemma filter_eq_filter_neq_nil:
  "filter (\<lambda>n. nid n = i) (filter (\<lambda>n. nid n \<noteq> i) xs) = []"
  by (induction xs) auto

text \<open>
  C1. Two upserts of the same type and local id: each returns the id \<open>type:localId\<close>, and
  afterwards the nodes table holds exactly one row with that id, whose properties are the
  second mapping as it was given (nothing of the first one is left).
\<close>

theorem upsert_twice_replaces:
  "(case add_node g now1 t l P1 of (i1, g1) \<Rightarrow>
      case add_node g1 now2 t l P2 of (i2, g2) \<Rightarrow>
        i1 = t @ '':'' @ l \<and> i2 = t @ '':'' @ l \<and>
        map properties (filter (\<lambda>n. nid n = t @ '':'' @ l) (nodes g2)) = [P2] \<and>
        map_option properties (get_node g2 (t @ '':'' @ l)) = Some P2)"
  by (simp add: add_node_def get_node_def Let_def filter_eq_filter_neq_nil
      find_filter_append_new)

theorem upsert_twice_replaces_witness:
  "(case add_node empty_graph 1 ''Issue'' ''1'' [''title'' \<mapsto> JStr ''A''] of (i1, g1) \<Rightarrow>
      case add_node g1 2 ''Issue'' ''1'' [''title'' \<mapsto> JStr ''B''] of (i2, g2) \<Rightarrow>
        i1 = ''Issue:1'' \<and> i2 = ''Issue:1'' \<and>
        map properties (filter (\<lambda>n. nid n = ''Issue:1'') (nodes g2)) = [[''title'' \<mapsto> JStr ''B'']] \<and>
        map_option properties (get_node g2 ''Issue:1'') = Some [''title'' \<mapsto> JStr ''B''])"
  using upsert_twice_replaces[where g = empty_graph and ?now1.0 = 1 and t = "''Issue''"
      and l = "''1''" and ?P1.0 = "[''title'' \<mapsto> JStr ''A'']" and ?now2.0 = 2
      and ?P2.0 = "[''title'' \<mapsto> JStr ''B'']"]
  by (simp only: append.simps)

lemma find_map_update:
  "find (\<lambda>m. nid m = i) (map (\<lambda>m. if nid m = i then u m else m) xs)
     = map_option u (find (\<lambda>m. nid m = i) xs)" if "\<And>m. nid (u m) = nid m"
  using that by (induction xs) auto

lemma filter_neq_map_update:
  "filter (\<lambda>m. nid m \<noteq> i) (map (\<lambda>m. if nid m = i then u m else m) xs)
     = filter (\<lambda>m. nid m \<noteq> i) xs" if "\<And>m. nid (u m) = nid m"
  using that by (induction xs) auto

lemma map_nid_map_update:
  "map nid (map (\<lambda>m. if nid m = i then u m else m) xs) = map nid xs"
  if "\<And>m. nid (u m) = nid m"
  using that by (induction xs) auto

text \<open>
  C2. A merge-update of an existing node succeeds and overlays the supplied keys: in the
  stored properties a supplied key has the supplied value and every other key has the
  value it had; \<open>updated_at\<close> is set to the clock reading and nothing else of the row changes.
  The other rows, the order of the table and the edges stay as they were. The instance of
  the specification, \<open>{title: B}\<close> merged with \<open>{status: closed}\<close>, is the witness.
\<close>

theorem merge_update_overlays:
  assumes "get_node g i = Some n"
  shows "\<exists>g' n'. update_node g now i P = (Inr (), g') \<and>
           get_node g' i = Some n' \<and>
           (\<forall>k. properties n' k = (case P k of None \<Rightarrow> properties n k | Some v \<Rightarrow> Some v)) \<and>
           updated_at n' = now \<and>
           n' = n\<lparr>properties := properties n', updated_at := now\<rparr> \<and>
           filter (\<lambda>m. nid m \<noteq> i) (nodes g') = filter (\<lambda>m. nid m \<noteq> i) (nodes g) \<and>
           map nid (nodes g') = map nid (nodes g) \<and>
           edges g' = edges g"
  using assms
  by (simp add: update_node_def get_node_def find_map_update filter_neq_map_update
      map_nid_map_update map_add_def)

theorem merge_update_overlays_witness:
  "get_node (snd (add_node empty_graph 1 ''Issue'' ''1'' [''title'' \<mapsto> JStr ''B''])) ''Issue:1''
     = Some \<lparr>nid = ''Issue:1'', ntype = ''Issue'', properties = [''title'' \<mapsto> JStr ''B''],
             created_at = 1, updated_at = 1\<rparr> \<and>
   (\<exists>g' n'. update_node (snd (add_node empty_graph 1 ''Issue'' ''1'' [''title'' \<mapsto> JStr ''B'']))
               2 ''Issue:1'' [''status'' \<mapsto> JStr ''closed''] = (Inr (), g') \<and>
            get_node g' ''Issue:1'' = Some n' \<and>
            properties n' = [''title'' \<mapsto> JStr ''B'', ''status'' \<mapsto> JStr ''closed''] \<and>
            updated_at n' = 2)"
proof -
  let ?g = "snd (add_node empty_graph 1 ''Issue'' ''1'' [''title'' \<mapsto> JStr ''B''])"
  let ?n = "\<lparr>nid = ''Issue:1'', ntype = ''Issue'', properties = [''title'' \<mapsto> JStr ''B''],
             created_at = 1, updated_at = 1\<rparr>"
  have h: "get_node ?g ''Issue:1'' = Some ?n"
    by (simp add: add_node_def empty_graph_def get_node_def Let_def)
  from merge_update_overlays[OF h, of 2 "[''status'' \<mapsto> JStr ''closed'']"]
  obtain g' n' where
    a: "update_node ?g 2 ''Issue:1'' [''status'' \<mapsto> JStr ''closed''] = (Inr (), g')" and
    b: "get_node g' ''Issue:1'' = Some n'" and
    c: "\<forall>k. properties n' k =
          (case [''status'' \<mapsto> JStr ''closed''] k of None \<Rightarrow> properties ?n k | Some v \<Rightarrow> Some v)" and
    d: "updated_at n' = 2"
    by blast
  from c have "properties n' = [''title'' \<mapsto> JStr ''B'', ''status'' \<mapsto> JStr ''closed'']"
    by (intro ext) simp
  with h a b d show ?thesis by blast
qed

text \<open>
  C3. A merge-update of a node id that is not in the store returns the \<^verbatim>\<open>ValueError\<close>
  "Node not found" together with the store it was given, nodes and edges untouched; and
  \<^verbatim>\<open>handle_issue_closed\<close> on an issue number without a node hands that same error, and that
  same store, to its caller. The witness is issue 999 on the empty store.
\<close>

theorem update_missing_node_raises:
  "(get_node g i = None \<longrightarrow>
      update_node g now i P = (Inl (ValueError (''Node not found: '' @ i)), g)) \<and>
   (get_node g (''Issue:'' @ str_int k) = None \<longrightarrow>
      handle_issue_closed g clk k
        = (Inl (ValueError (''Node not found: Issue:'' @ str_int k)), g))"
  by (simp add: update_node_def handle_issue_closed_def)

lemma str_int_999: "str_int 999 = ''999''"
  by (simp add: str_int_def nat_digits.simps)

theorem update_missing_node_raises_witness:
  "get_node empty_graph ''Issue:999'' = None \<and>
   update_node empty_graph 0 ''Issue:999'' [''status'' \<mapsto> JStr ''closed'']
     = (Inl (ValueError ''Node not found: Issue:999''), empty_graph) \<and>
   handle_issue_closed empty_graph (\<lambda>k. 0) 999
     = (Inl (ValueError ''Node not found: Issue:999''), empty_graph)"
proof -
  have h: "get_node empty_graph ''Issue:999'' = None"
    by (simp add: get_node_def empty_graph_def)
  have h': "get_node empty_graph (''Issue:'' @ str_int 999) = None"
    by (simp add: get_node_def empty_graph_def)
  from update_missing_node_raises[where g = empty_graph and i = "''Issue:999''" and now = 0
      and P = "[''status'' \<mapsto> JStr ''closed'']" and k = 999 and clk = "\<lambda>k. 0"] h h'
  have "update_node empty_graph 0 ''Issue:999'' [''status'' \<mapsto> JStr ''closed'']
          = (Inl (ValueError (''Node not found: '' @ ''Issue:999'')), empty_graph)"
    and "handle_issue_closed empty_graph (\<lambda>k. 0) 999
          = (Inl (ValueError (''Node not found: Issue:'' @ str_int 999)), empty_graph)"
    by blast+
  with h show ?thesis by (simp add: str_int_999)
qed

lemma count_key_distinct:
  "distinct (map f xs) \<Longrightarrow> k \<in> set (map f xs) \<Longrightarrow> length (filter (\<lambda>e. f e = k) xs) = 1"
proof (induction xs)
  case Nil
  then show ?case by simp
next
  case (Cons x xs)
  show ?case
  proof (cases "f x = k")
    case True
    from Cons.prems have "f x \<notin> f ` set xs" by simp
    with True have "filter (\<lambda>e. f e = k) xs = []"
      by (auto simp: filter_empty_conv image_iff)
    with True show ?thesis by simp
  next
    case False
    with Cons show ?thesis by auto
  qed
qed

text \<open>
  C4. On a store that satisfies the table's uniqueness constraint, inserting the same
  triple twice leaves exactly one edge with that triple: the second insert returns the
  store of the first one unchanged, and the constraint still holds.
\<close>

theorem add_edge_twice_idempotent:
  assumes "unique_edges g"
  shows "(let g1 = add_edge g now1 f t r p1; g2 = add_edge g1 now2 f t r p2
          in g2 = g1 \<and>
             length (filter (\<lambda>e. edge_key e = (f, t, r)) (edges g2)) = 1 \<and>
             unique_edges g2)"
proof (cases "(f, t, r) \<in> set (map edge_key (edges g))")
  case True
  with assms count_key_distinct[of edge_key "edges g" "(f, t, r)"] show ?thesis
    by (simp add: add_edge_def unique_edges_def Let_def)
next
  case False
  then have "filter (\<lambda>e. edge_key e = (f, t, r)) (edges g) = []"
    by (auto simp: filter_empty_conv image_iff)
  with False assms show ?thesis
    by (simp add: add_edge_def unique_edges_def Let_def edge_key_def)
qed

theorem add_edge_twice_idempotent_witness:
  "unique_edges empty_graph \<and>
   (let g1 = add_edge empty_graph 1 ''A'' ''B'' ''ABOUT'' Map.empty;
        g2 = add_edge g1 2 ''A'' ''B'' ''ABOUT'' Map.empty
    in g2 = g1 \<and>
       length (filter (\<lambda>e. edge_key e = (''A'', ''B'', ''ABOUT'')) (edges g2)) = 1 \<and>
       unique_edges g2) \<and>
   length (edges (add_edge (add_edge empty_graph 1 ''A'' ''B'' ''ABOUT'' Map.empty)
                     2 ''A'' ''B'' ''ABOUT'' Map.empty)) = 1"
proof -
  have h: "unique_edges empty_graph" by (simp add: unique_edges_def empty_graph_def)
  have "length (edges (add_edge (add_edge empty_graph 1 ''A'' ''B'' ''ABOUT'' Map.empty)
                     2 ''A'' ''B'' ''ABOUT'' Map.empty)) = 1"
    by (simp add: add_edge_def empty_graph_def edge_key_def)
  with h add_edge_twice_idempotent[OF h, of 1 "''A''" "''B''" "''ABOUT''" Map.empty 2 Map.empty]
  show ?thesis by blast
qed

section \<open>Properties of the traversal\<close>


lemma find_dependents_loop_Nil:
  "find_dependents_loop es m v [] d = Some d"
  by (simp add: find_dependents_loop.simps)

lemma find_dependents_loop_Cons:
  "find_dependents_loop es m v ((c, k) # rest) d =
     (if c \<in> v \<or> m \<le> k then find_dependents_loop es m v rest d
      else find_dependents_loop es m (insert c v)
             (rest @ map (\<lambda>x. (x, k + 1)) (filter (\<lambda>x. x \<notin> insert c v) (outgoing es c)))
             (d @ filter (\<lambda>x. x \<notin> insert c v) (outgoing es c)))"
  by (subst find_dependents_loop.simps) (simp add: Let_def)

lemma unvisited_skip: "unvisited es v rest \<le> unvisited es v (p # rest)"
  unfolding unvisited_def by (rule card_mono) auto

lemma outgoing_subset: "set (outgoing es c) \<subseteq> to_id ` set es"
  by (auto simp: outgoing_def)

lemma unvisited_visit:
  assumes "c \<notin> v" and "set new \<subseteq> to_id ` set es"
  shows "unvisited es (insert c v) (rest @ map (\<lambda>x. (x, k')) new) < unvisited es v ((c, k) # rest)"
  unfolding unvisited_def
proof (rule psubset_card_mono)
  show "finite ((fst ` set ((c, k) # rest) \<union> to_id ` set es) - v)" by simp
  show "(fst ` set (rest @ map (\<lambda>x. (x, k')) new) \<union> to_id ` set es) - insert c v
        \<subset> (fst ` set ((c, k) # rest) \<union> to_id ` set es) - v"
    using assms by (auto simp: image_iff subset_iff)
qed

lemma find_dependents_loop_total:
  "\<exists>r. find_dependents_loop es m v q d = Some r"
proof -
  have "\<exists>r. find_dependents_loop es m (fst st) (fst (snd st)) (snd (snd st)) = Some r" for st
  proof (induction st rule: wf_induct_rule[OF wf_measures[of
          "[\<lambda>(v, q, d :: string list). unvisited es v q, \<lambda>(v, q, d). length q]"]])
    case (1 st)
    obtain v q d where st: "st = (v, q, d)" by (cases st)
    show ?case
    proof (cases q)
      case Nil
      then show ?thesis by (simp add: st find_dependents_loop_Nil)
    next
      case (Cons p rest)
      obtain c k where p: "p = (c, k)" by (cases p)
      show ?thesis
      proof (cases "c \<in> v \<or> m \<le> k")
        case True
        have "((v, rest, d), st) \<in>
                measures [\<lambda>(v, q, d). unvisited es v q, \<lambda>(v, q, d). length q]"
          using unvisited_skip[of es v rest p] by (auto simp: st Cons)
        from 1[OF this] True show ?thesis by (simp add: st Cons p find_dependents_loop_Cons)
      next
        case False
        let ?new = "filter (\<lambda>x. x \<notin> insert c v) (outgoing es c)"
        have "set ?new \<subseteq> to_id ` set es" using outgoing_subset[of es c] by auto
        with False have "unvisited es (insert c v) (rest @ map (\<lambda>x. (x, k + 1)) ?new)
            < unvisited es v ((c, k) # rest)"
          by (intro unvisited_visit) auto
        then have "((insert c v, rest @ map (\<lambda>x. (x, k + 1)) ?new, d @ ?new), st) \<in>
                measures [\<lambda>(v, q, d). unvisited es v q, \<lambda>(v, q, d). length q]"
          by (simp add: st Cons p)
        from 1[OF this] False show ?thesis by (simp add: st Cons p find_dependents_loop_Cons)
      qed
    qed
  qed
  from this[of "(v, q, d)"] show ?thesis by simp
qed

lemma three_distinct_cases:
  assumes "length xs = 3" and "set xs = {a, b, c}" and "a \<noteq> b" and "b \<noteq> c" and "a \<noteq> c"
  shows "xs \<in> {[a, b, c], [a, c, b], [b, a, c], [b, c, a], [c, a, b], [c, b, a]}"
proof -
  from assms(1) obtain x y z where xs: "xs = [x, y, z]"
    by (auto simp: length_Suc_conv numeral_3_eq_3)
  from assms(2) have "card (set xs) = 3" using assms(3-5) by simp
  with xs have d: "x \<noteq> y" "y \<noteq> z" "x \<noteq> z"
    by (auto simp: card_insert_if split: if_splits)
  from assms(2) xs have "x \<in> {a, b, c}" "y \<in> {a, b, c}" "z \<in> {a, b, c}" by auto
  with d show ?thesis unfolding xs by auto
qed

lemma outgoing_ends:
  "outgoing es x = sort (map snd (filter (\<lambda>p. fst p = x) (map (\<lambda>e. (from_id e, to_id e)) es)))"
proof -
  have "map to_id (filter (\<lambda>e. from_id e = x) es)
          = map snd (filter (\<lambda>p. fst p = x) (map (\<lambda>e. (from_id e, to_id e)) es))"
    by (induction es) auto
  then show ?thesis by (simp add: outgoing_def)
qed

lemma cycle_outgoing:
  assumes "length es = 3"
    and "set (map (\<lambda>e. (from_id e, to_id e)) es) = {(''A'', ''B''), (''B'', ''C''), (''C'', ''A'')}"
  shows "outgoing es ''A'' = [''B''] \<and> outgoing es ''B'' = [''C''] \<and> outgoing es ''C'' = [''A'']"
proof -
  from assms have "map (\<lambda>e. (from_id e, to_id e)) es \<in>
      {[(''A'', ''B''), (''B'', ''C''), (''C'', ''A'')], [(''A'', ''B''), (''C'', ''A''), (''B'', ''C'')],
       [(''B'', ''C''), (''A'', ''B''), (''C'', ''A'')], [(''B'', ''C''), (''C'', ''A''), (''A'', ''B'')],
       [(''C'', ''A''), (''A'', ''B''), (''B'', ''C'')], [(''C'', ''A''), (''B'', ''C''), (''A'', ''B'')]}"
    by (intro three_distinct_cases) simp_all
  then show ?thesis
    unfolding outgoing_ends by (elim insertE emptyE) simp_all
qed

text \<open>
  C5. \<^verbatim>\<open>find_dependents\<close> returns a result for every store, every seed and every depth
  bound, cycles or not; and on a store whose edges table holds three rows, from A to B,
  from B to C and from C to A in any order, the call with seed A and bound 5 returns the
  sequence B, C, each id once.
\<close>

theorem find_dependents_terminates:
  "(\<exists>r. find_dependents g node_id max_depth = Some r) \<and>
   (length (edges c) = 3 \<and>
    set (map (\<lambda>e. (from_id e, to_id e)) (edges c))
      = {(''A'', ''B''), (''B'', ''C''), (''C'', ''A'')}
    \<longrightarrow> find_dependents c ''A'' 5 = Some [''B'', ''C''])"
proof (intro conjI impI)
  show "\<exists>r. find_dependents g node_id max_depth = Some r"
    unfolding find_dependents_def by (rule find_dependents_loop_total)
next
  assume "length (edges c) = 3 \<and>
    set (map (\<lambda>e. (from_id e, to_id e)) (edges c))
      = {(''A'', ''B''), (''B'', ''C''), (''C'', ''A'')}"
  then have "outgoing (edges c) ''A'' = [''B'']" "outgoing (edges c) ''B'' = [''C'']"
    "outgoing (edges c) ''C'' = [''A'']"
    using cycle_outgoing[of "edges c"] by simp_all
  then show "find_dependents c ''A'' 5 = Some [''B'', ''C'']"
    by (simp add: find_dependents_def find_dependents_loop_Nil find_dependents_loop_Cons)
qed

lemma cycle_graph_edges:
  "map (\<lambda>e. (from_id e, to_id e)) (edges cycle_graph)
     = [(''A'', ''B''), (''B'', ''C''), (''C'', ''A'')]"
  by (simp add: cycle_graph_def add_edge_def empty_graph_def edge_key_def)

theorem find_dependents_terminates_witness:
  "(\<exists>r. find_dependents cycle_graph ''A'' 5 = Some r) \<and>
   length (edges cycle_graph) = 3 \<and>
   set (map (\<lambda>e. (from_id e, to_id e)) (edges cycle_graph))
     = {(''A'', ''B''), (''B'', ''C''), (''C'', ''A'')} \<and>
   find_dependents cycle_graph ''A'' 5 = Some [''B'', ''C'']"
proof -
  have l: "length (edges cycle_graph) = 3"
    using arg_cong[OF cycle_graph_edges, of length] by simp
  have s: "set (map (\<lambda>e. (from_id e, to_id e)) (edges cycle_graph))
     = {(''A'', ''B''), (''B'', ''C''), (''C'', ''A'')}"
    unfolding cycle_graph_edges by simp
  from find_dependents_terminates[of cycle_graph "''A''" 5 cycle_graph] l s
  show ?thesis by blast
qed

lemma find_dependents_loop_all_deep:
  "list_all (\<lambda>p. m \<le> snd p) q \<Longrightarrow> find_dependents_loop es m v q d = Some d"
  by (induction q) (auto simp: find_dependents_loop_Nil find_dependents_loop_Cons)

text \<open>
  C8, as claimed, fails: on the store with the single edge from A to B the seed A has the
  direct successor B, and the call with bound 0 does not return it.
\<close>

theorem find_dependents_depth0_counterexample:
  "outgoing (edges single_edge_graph) ''A'' = [''B''] \<and>
   find_dependents single_edge_graph ''A'' 0 \<noteq> Some (outgoing (edges single_edge_graph) ''A'')"
  by (simp add: single_edge_graph_def add_edge_def empty_graph_def edge_key_def outgoing_def
      find_dependents_def find_dependents_loop_Nil find_dependents_loop_Cons)

text \<open>
  C8, amended. The seed is dequeued with depth 0 and the test \<^verbatim>\<open>depth >= max_depth\<close> is
  applied to it like to every other entry: with bound 0, and with every bound below 0, the
  call returns the empty sequence for every store and seed. The smallest bound that
  explores one hop is therefore 1, and with it the call returns the targets of the seed's
  outgoing edges other than the seed itself, one entry for every edge row, in the order
  in which the database lists them (sorted by target id).
\<close>

theorem find_dependents_depth0_empty:
  "find_dependents g seed 0 = Some [] \<and>
   (m \<le> 0 \<longrightarrow> find_dependents g seed m = Some []) \<and>
   find_dependents g seed 1 = Some (filter (\<lambda>d. d \<noteq> seed) (outgoing (edges g) seed))"
proof (intro conjI impI)
  show "find_dependents g seed 0 = Some []"
    by (simp add: find_dependents_def find_dependents_loop_Nil find_dependents_loop_Cons)
  show "find_dependents g seed m = Some []" if "m \<le> 0"
    using that
    by (simp add: find_dependents_def find_dependents_loop_Nil find_dependents_loop_Cons)
  have "list_all (\<lambda>p. 1 \<le> snd p)
          (map (\<lambda>x. (x, 1 :: int)) (filter (\<lambda>d. d \<noteq> seed) (outgoing (edges g) seed)))"
    by (simp add: list_all_iff)
  from find_dependents_loop_all_deep[OF this]
  show "find_dependents g seed 1 = Some (filter (\<lambda>d. d \<noteq> seed) (outgoing (edges g) seed))"
    by (simp add: find_dependents_def find_dependents_loop_Cons)
qed

lemma reversed_fork_graph_rows:
  "map (\<lambda>e. (from_id e, to_id e)) (edges reversed_fork_graph) = [(''A'', ''C''), (''A'', ''B'')]"
  by (simp add: reversed_fork_graph_def add_edge_def empty_graph_def edge_key_def)

lemma reversed_fork_graph_outgoing: "outgoing (edges reversed_fork_graph) ''A'' = [''B'', ''C'']"
  unfolding outgoing_ends reversed_fork_graph_rows by simp

theorem find_dependents_depth0_empty_witness:
  "(- 1 :: int) \<le> 0 \<and>
   find_dependents reversed_fork_graph ''A'' 0 = Some [] \<and>
   find_dependents reversed_fork_graph ''A'' (- 1) = Some [] \<and>
   map (\<lambda>e. (from_id e, to_id e)) (edges reversed_fork_graph) = [(''A'', ''C''), (''A'', ''B'')] \<and>
   find_dependents reversed_fork_graph ''A'' 1 = Some [''B'', ''C'']"
proof -
  have h: "(- 1 :: int) \<le> 0" by simp
  from find_dependents_depth0_empty[of reversed_fork_graph "''A''" "- 1"] h
  have a: "find_dependents reversed_fork_graph ''A'' 0 = Some []"
    and b: "find_dependents reversed_fork_graph ''A'' (- 1) = Some []"
    and c: "find_dependents reversed_fork_graph ''A'' 1
      = Some (filter (\<lambda>d. d \<noteq> ''A'') (outgoing (edges reversed_fork_graph) ''A''))"
    by blast+
  from c have "find_dependents reversed_fork_graph ''A'' 1 = Some [''B'', ''C'']"
    by (simp only: reversed_fork_graph_outgoing) simp
  with h a b reversed_fork_graph_rows show ?thesis by blast
qed

text \<open>
  C10. On a store whose edges table holds, in this order, the rows from A to B, from A to
  C, from B to D and from C to D, the call with seed A and bound 3 returns the sequence
  B, C, D, D: the result of \<^verbatim>\<open>find_dependents\<close> can name a node more than once.
\<close>

theorem find_dependents_repeats_node:
  assumes "map (\<lambda>e. (from_id e, to_id e)) (edges g)
             = [(''A'', ''B''), (''A'', ''C''), (''B'', ''D''), (''C'', ''D'')]"
  shows "find_dependents g ''A'' 3 = Some [''B'', ''C'', ''D'', ''D''] \<and>
         (\<exists>r. find_dependents g ''A'' 3 = Some r \<and> \<not> distinct r)"
proof -
  from assms have "outgoing (edges g) ''A'' = [''B'', ''C'']" "outgoing (edges g) ''B'' = [''D'']"
    "outgoing (edges g) ''C'' = [''D'']" "outgoing (edges g) ''D'' = []"
    by (simp_all add: outgoing_ends)
  then have "find_dependents g ''A'' 3 = Some [''B'', ''C'', ''D'', ''D'']"
    by (simp add: find_dependents_def find_dependents_loop_Nil find_dependents_loop_Cons)
  then show ?thesis by simp
qed

theorem find_dependents_repeats_node_witness:
  "map (\<lambda>e. (from_id e, to_id e)) (edges diamond_graph)
     = [(''A'', ''B''), (''A'', ''C''), (''B'', ''D''), (''C'', ''D'')] \<and>
   find_dependents diamond_graph ''A'' 3 = Some [''B'', ''C'', ''D'', ''D''] \<and>
   (\<exists>r. find_dependents diamond_graph ''A'' 3 = Some r \<and> \<not> distinct r)"
proof -
  have h: "map (\<lambda>e. (from_id e, to_id e)) (edges diamond_graph)
     = [(''A'', ''B''), (''A'', ''C''), (''B'', ''D''), (''C'', ''D'')]"
    by (simp add: diamond_graph_def add_edge_def empty_graph_def edge_key_def)
  from find_dependents_repeats_node[OF h] h show ?thesis by blast
qed

section \<open>Properties of the one-hop query\<close>

lemma find_related_concat:
  "find_related g q rel =
     concat (map (edge_rows (nodes g))
       (filter (\<lambda>e. (from_id e = q \<or> to_id e = q) \<and> relationship_matches rel e) (edges g)))"
proof -
  have "concat (map (\<lambda>e. if P e then f e else []) es) = concat (map f (filter P es))"
    for P and f :: "edge \<Rightarrow> related list" and es
    by (induction es) auto
  moreover have "concat (map (\<lambda>n. if to_id e = nid n \<or> from_id e = nid n
                      then [node_row n] else []) ns)
       = edge_rows ns e" for e ns
    by (induction ns) (auto simp: edge_rows_def)
  ultimately show ?thesis
    by (simp add: find_related_def)
qed

lemma count_edge_rows:
  "length (filter (\<lambda>r. rid r = i) (edge_rows ns e))
     = (if to_id e = i \<or> from_id e = i then length (filter (\<lambda>n. nid n = i) ns) else 0)"
  by (induction ns) (auto simp: edge_rows_def node_row_def)

lemma count_concat_edge_rows:
  "length (filter (\<lambda>r. rid r = i) (concat (map (edge_rows ns) es)))
     = length (filter (\<lambda>n. nid n = i) ns) *
       length (filter (\<lambda>e. to_id e = i \<or> from_id e = i) es)"
  by (induction es) (simp_all add: count_edge_rows)

lemma length_filter_pos_iff: "0 < length (filter P xs) \<longleftrightarrow> (\<exists>x\<in>set xs. P x)"
  by (induction xs) auto

lemma image_iff_count_pos: "i \<in> f ` set xs \<longleftrightarrow> 0 < length (filter (\<lambda>r. f r = i) xs)"
  by (induction xs) auto

text \<open>
  C9, amended. \<^verbatim>\<open>find_related\<close> returns a list, in which a node can occur more than once.
  For an id other than the queried one: the number of its rows is the number of stored
  nodes with that id (one, under the primary key) times the number of edges that pass the
  filter and join it with the queried node in either direction; the id occurs in the
  result exactly when a node with that id is stored and at least one such edge exists.
  Every row is the row of a stored node. A filter that is absent or the empty string lets
  every relationship pass.
\<close>

theorem find_related_rows:
  assumes "i \<noteq> q"
  shows "length (filter (\<lambda>r. rid r = i) (find_related g q rel))
           = length (filter (\<lambda>n. nid n = i) (nodes g)) *
             length (filter (\<lambda>e. relationship_matches rel e \<and>
                               (from_id e = q \<and> to_id e = i \<or> from_id e = i \<and> to_id e = q))
                       (edges g)) \<and>
         (i \<in> rid ` set (find_related g q rel) \<longleftrightarrow>
            i \<in> nid ` set (nodes g) \<and>
            (\<exists>e\<in>set (edges g). relationship_matches rel e \<and>
               (from_id e = q \<and> to_id e = i \<or> from_id e = i \<and> to_id e = q))) \<and>
         set (find_related g q rel) \<subseteq> node_row ` set (nodes g)"
proof -
  let ?J = "\<lambda>e. relationship_matches rel e \<and>
               (from_id e = q \<and> to_id e = i \<or> from_id e = i \<and> to_id e = q)"
  have f: "filter (\<lambda>e. to_id e = i \<or> from_id e = i)
             (filter (\<lambda>e. (from_id e = q \<or> to_id e = q) \<and> relationship_matches rel e) (edges g))
           = filter ?J (edges g)"
    using assms by (auto intro!: filter_cong)
  have c: "length (filter (\<lambda>r. rid r = i) (find_related g q rel))
           = length (filter (\<lambda>n. nid n = i) (nodes g)) * length (filter ?J (edges g))"
    by (simp only: find_related_concat count_concat_edge_rows f)
  have "i \<in> rid ` set (find_related g q rel)
          \<longleftrightarrow> 0 < length (filter (\<lambda>r. rid r = i) (find_related g q rel))"
    by (rule image_iff_count_pos)
  also have "\<dots> \<longleftrightarrow> i \<in> nid ` set (nodes g) \<and> (\<exists>e\<in>set (edges g). ?J e)"
    unfolding c by (simp add: image_iff_count_pos[of i nid] filter_empty_conv)
  finally have m: "i \<in> rid ` set (find_related g q rel)
          \<longleftrightarrow> i \<in> nid ` set (nodes g) \<and> (\<exists>e\<in>set (edges g). ?J e)" .
  have s: "set (find_related g q rel) \<subseteq> node_row ` set (nodes g)"
    by (auto simp: find_related_concat edge_rows_def)
  from c m s show ?thesis by blast
qed

lemma double_link_graph_eq:
  "double_link_graph =
     \<lparr>nodes = [\<lparr>nid = ''Issue:1'', ntype = ''Issue'', properties = Map.empty,
                 created_at = 0, updated_at = 0\<rparr>,
               \<lparr>nid = ''Document:a'', ntype = ''Document'', properties = Map.empty,
                 created_at = 0, updated_at = 0\<rparr>],
      edges = [\<lparr>from_id = ''Issue:1'', to_id = ''Document:a'', relationship = ''ABOUT'',
                 eproperties = Map.empty, ecreated_at = 0\<rparr>,
               \<lparr>from_id = ''Issue:1'', to_id = ''Document:a'', relationship = ''EXPLAINS'',
                 eproperties = Map.empty, ecreated_at = 0\<rparr>]\<rparr>"
  by (simp add: double_link_graph_def add_node_def add_edge_def empty_graph_def edge_key_def Let_def)

text \<open>
  C9, as claimed, fails: with two edges of different relationships from \<open>Issue:1\<close> to
  \<open>Document:a\<close>, the unfiltered query for \<open>Issue:1\<close> returns \<open>Document:a\<close> twice.
\<close>

theorem find_related_duplicates_counterexample:
  "length (filter (\<lambda>r. rid r = ''Document:a'') (find_related double_link_graph ''Issue:1'' None)) = 2 \<and>
   \<not> distinct (map rid (find_related double_link_graph ''Issue:1'' None))"
  by (simp add: double_link_graph_eq find_related_def relationship_matches_def node_row_def)

theorem find_related_rows_witness:
  "''Document:a'' \<noteq> ''Issue:1'' \<and>
   length (filter (\<lambda>r. rid r = ''Document:a'') (find_related double_link_graph ''Issue:1'' None))
     = length (filter (\<lambda>n. nid n = ''Document:a'') (nodes double_link_graph)) *
       length (filter (\<lambda>e. relationship_matches None e \<and>
                         (from_id e = ''Issue:1'' \<and> to_id e = ''Document:a'' \<or>
                          from_id e = ''Document:a'' \<and> to_id e = ''Issue:1''))
                 (edges double_link_graph)) \<and>
   length (filter (\<lambda>n. nid n = ''Document:a'') (nodes double_link_graph)) = 1 \<and>
   length (filter (\<lambda>e. relationship_matches None e \<and>
                         (from_id e = ''Issue:1'' \<and> to_id e = ''Document:a'' \<or>
                          from_id e = ''Document:a'' \<and> to_id e = ''Issue:1''))
                 (edges double_link_graph)) = 2"
proof -
  have h: "''Document:a'' \<noteq> ''Issue:1''" by simp
  have a: "length (filter (\<lambda>n. nid n = ''Document:a'') (nodes double_link_graph)) = 1"
    by (simp add: double_link_graph_eq)
  have b: "length (filter (\<lambda>e. relationship_matches None e \<and>
                         (from_id e = ''Issue:1'' \<and> to_id e = ''Document:a'' \<or>
                          from_id e = ''Document:a'' \<and> to_id e = ''Issue:1''))
                 (edges double_link_graph)) = 2"
    by (simp add: double_link_graph_eq relationship_matches_def)
  from find_related_rows[OF h, of double_link_graph None] h a b show ?thesis by blast
qed

section \<open>Properties of \<^verbatim>\<open>handle_issue_created\<close>\<close>

lemma nodes_add_edge: "nodes (add_edge g now f t r p) = nodes g"
  by (simp add: add_edge_def)

lemma edges_add_node: "edges (snd (add_node g now t l P)) = edges g"
  by (simp add: add_node_def Let_def)

lemma rows_add_node:
  "filter (\<lambda>n. nid n = i) (nodes (snd (add_node g now t l P))) =
     (if i = t @ '':'' @ l
      then [\<lparr>nid = t @ '':'' @ l, ntype = t, properties = P, created_at = now, updated_at = now\<rparr>]
      else filter (\<lambda>n. nid n = i) (nodes g))"
  by (auto simp: add_node_def Let_def filter_eq_filter_neq_nil intro!: filter_cong)

lemma others_add_node:
  "t @ '':'' @ l \<in> S \<Longrightarrow>
   filter (\<lambda>n. nid n \<notin> S) (nodes (snd (add_node g now t l P))) = filter (\<lambda>n. nid n \<notin> S) (nodes g)"
  by (auto simp: add_node_def Let_def intro!: filter_cong)

lemma keys_add_edge:
  "set (map edge_key (edges (add_edge g now f t r p)))
     = insert (f, t, r) (set (map edge_key (edges g)))"
  by (auto simp: add_edge_def edge_key_def)

lemma edges_add_edge_grow:
  "\<exists>es. edges (add_edge g now f t r p) = edges g @ es \<and> set (map edge_key es) \<subseteq> {(f, t, r)}"
  by (simp add: add_edge_def edge_key_def)

lemma extract_concepts_scenario:
  "extract_concepts_from_text ''Storage API token error See docs/keboola/auth.md''
     = [''Concept:StorageAPI'', ''Concept:Authentication'']"
  by code_simp

lemma extract_files_scenario:
  "extract_files_from_text ''Storage API token error See docs/keboola/auth.md''
     = [''docs/keboola/auth.md'']"
  by code_simp

lemma str_int_42: "str_int 42 = ''42''"
  by code_simp

lemma split_colon_1_scenario:
  "split_colon_1 ''Concept:StorageAPI'' = Inr ''StorageAPI''"
  "split_colon_1 ''Concept:Authentication'' = Inr ''Authentication''"
  by code_simp+

lemma handle_issue_created_scenario:
  "handle_issue_created g clk 42 (scenario_issue url created) =
     (Inr (),
      add_edge (snd (add_node
        (add_edge (snd (add_node
          (add_edge (snd (add_node
            (snd (add_node g (clk 0) ''Issue'' ''42'' (scenario_issue_props url created)))
            (clk 1) ''Concept'' ''StorageAPI'' [''name'' \<mapsto> JStr ''StorageAPI'']))
            (clk 2) ''Issue:42'' ''Concept:StorageAPI'' ''ABOUT'' Map.empty)
          (clk 3) ''Concept'' ''Authentication'' [''name'' \<mapsto> JStr ''Authentication'']))
          (clk 4) ''Issue:42'' ''Concept:Authentication'' ''ABOUT'' Map.empty)
        (clk 5) ''Document'' ''docs/keboola/auth.md''
          [''path'' \<mapsto> JStr ''docs/keboola/auth.md'']))
        (clk 6) ''Issue:42'' ''Document:docs/keboola/auth.md'' ''ABOUT'' Map.empty)"
proof -
  have i: "add_node g t ''Issue'' ''42'' P = (''Issue:42'', snd (add_node g t ''Issue'' ''42'' P))"
    for P t by (simp add: add_node_def Let_def)
  have n: "(1::nat) + 1 = 2" "(1::nat) + 2 = 3" "(3::nat) + 1 = 4" "(3::nat) + 2 = 5"
    "(1::nat) + 2 * length [a, b] = 5" "(5::nat) + 1 = 6" for a b :: string
    by simp_all
  show ?thesis
    unfolding handle_issue_created_def scenario_issue_def scenario_issue_props_def
    apply (simp only: issue_data.simps option.case list.map str_int_42 Let_def)
    apply (subst i)
    apply (simp only: prod.case append.simps extract_concepts_scenario extract_files_scenario
        link_concepts.simps link_documents.simps split_colon_1_scenario sum.case Let_def n)
    done
qed

text \<open>
  C7. For the payload with the title "Storage API token error", the body
  "See docs/keboola/auth.md", no labels and any url and creation date, on any store:
  \<^verbatim>\<open>handle_issue_created\<close> for issue 42 succeeds; afterwards the nodes table has exactly one
  row for each of \<open>Issue:42\<close> (of type \<open>Issue\<close>, with the payload's properties and status
  "open"), \<open>Concept:StorageAPI\<close>, \<open>Concept:Authentication\<close> and
  \<open>Document:docs/keboola/auth.md\<close>, shown here by id, type and properties, and the rows
  with other ids are the ones it had; the edge triples are the old ones and the
  three \<open>ABOUT\<close> edges from \<open>Issue:42\<close> to the two concepts and the document, the old edge
  rows are kept and every new row is one of the three. On the empty store these four
  nodes and three edges are all there is.
\<close>

theorem issue_created_end_to_end:
  "(case handle_issue_created g clk 42 (scenario_issue url created) of
      (r, g') \<Rightarrow>
        r = Inr () \<and>
        map node_row (filter (\<lambda>n. nid n = ''Issue:42'') (nodes g')) =
          [\<lparr>rid = ''Issue:42'', rtype = ''Issue'',
            rproperties = scenario_issue_props url created\<rparr>] \<and>
        scenario_issue_props url created ''status'' = Some (JStr ''open'') \<and>
        map node_row (filter (\<lambda>n. nid n = ''Concept:StorageAPI'') (nodes g')) =
          [\<lparr>rid = ''Concept:StorageAPI'', rtype = ''Concept'',
            rproperties = [''name'' \<mapsto> JStr ''StorageAPI'']\<rparr>] \<and>
        map node_row (filter (\<lambda>n. nid n = ''Concept:Authentication'') (nodes g')) =
          [\<lparr>rid = ''Concept:Authentication'', rtype = ''Concept'',
            rproperties = [''name'' \<mapsto> JStr ''Authentication'']\<rparr>] \<and>
        map node_row (filter (\<lambda>n. nid n = ''Document:docs/keboola/auth.md'') (nodes g')) =
          [\<lparr>rid = ''Document:docs/keboola/auth.md'', rtype = ''Document'',
            rproperties = [''path'' \<mapsto> JStr ''docs/keboola/auth.md'']\<rparr>] \<and>
        filter (\<lambda>n. nid n \<notin> {''Issue:42'', ''Concept:StorageAPI'', ''Concept:Authentication'',
                               ''Document:docs/keboola/auth.md''}) (nodes g') =
          filter (\<lambda>n. nid n \<notin> {''Issue:42'', ''Concept:StorageAPI'', ''Concept:Authentication'',
                               ''Document:docs/keboola/auth.md''}) (nodes g) \<and>
        set (map edge_key (edges g')) =
          set (map edge_key (edges g)) \<union>
            {(''Issue:42'', ''Concept:StorageAPI'', ''ABOUT''),
             (''Issue:42'', ''Concept:Authentication'', ''ABOUT''),
             (''Issue:42'', ''Document:docs/keboola/auth.md'', ''ABOUT'')} \<and>
        (\<exists>es. edges g' = edges g @ es \<and>
              set (map edge_key es) \<subseteq>
                {(''Issue:42'', ''Concept:StorageAPI'', ''ABOUT''),
                 (''Issue:42'', ''Concept:Authentication'', ''ABOUT''),
                 (''Issue:42'', ''Document:docs/keboola/auth.md'', ''ABOUT'')}))"
proof -
  define g1 where "g1 = snd (add_node g (clk 0) ''Issue'' ''42'' (scenario_issue_props url created))"
  define g2 where "g2 = snd (add_node g1 (clk 1) ''Concept'' ''StorageAPI''
                               [''name'' \<mapsto> JStr ''StorageAPI''])"
  define g3 where "g3 = add_edge g2 (clk 2) ''Issue:42'' ''Concept:StorageAPI'' ''ABOUT'' Map.empty"
  define g4 where "g4 = snd (add_node g3 (clk 3) ''Concept'' ''Authentication''
                               [''name'' \<mapsto> JStr ''Authentication''])"
  define g5 where "g5 = add_edge g4 (clk 4) ''Issue:42'' ''Concept:Authentication'' ''ABOUT'' Map.empty"
  define g6 where "g6 = snd (add_node g5 (clk 5) ''Document'' ''docs/keboola/auth.md''
                               [''path'' \<mapsto> JStr ''docs/keboola/auth.md''])"
  define g7 where "g7 = add_edge g6 (clk 6) ''Issue:42'' ''Document:docs/keboola/auth.md''
                          ''ABOUT'' Map.empty"
  note defs = g7_def g6_def g5_def g4_def g3_def g2_def g1_def
  have run: "handle_issue_created g clk 42 (scenario_issue url created) = (Inr (), g7)"
    unfolding handle_issue_created_scenario defs ..
  have rows: "map node_row (filter (\<lambda>n. nid n = ''Issue:42'') (nodes g7)) =
          [\<lparr>rid = ''Issue:42'', rtype = ''Issue'',
            rproperties = scenario_issue_props url created\<rparr>]"
    "map node_row (filter (\<lambda>n. nid n = ''Concept:StorageAPI'') (nodes g7)) =
          [\<lparr>rid = ''Concept:StorageAPI'', rtype = ''Concept'',
            rproperties = [''name'' \<mapsto> JStr ''StorageAPI'']\<rparr>]"
    "map node_row (filter (\<lambda>n. nid n = ''Concept:Authentication'') (nodes g7)) =
          [\<lparr>rid = ''Concept:Authentication'', rtype = ''Concept'',
            rproperties = [''name'' \<mapsto> JStr ''Authentication'']\<rparr>]"
    "map node_row (filter (\<lambda>n. nid n = ''Document:docs/keboola/auth.md'') (nodes g7)) =
          [\<lparr>rid = ''Document:docs/keboola/auth.md'', rtype = ''Document'',
            rproperties = [''path'' \<mapsto> JStr ''docs/keboola/auth.md'']\<rparr>]"
    unfolding defs by (simp_all add: nodes_add_edge rows_add_node node_row_def)
  have status: "scenario_issue_props url created ''status'' = Some (JStr ''open'')"
    by (simp add: scenario_issue_props_def)
  define S where "S = {''Issue:42'', ''Concept:StorageAPI'', ''Concept:Authentication'',
                       ''Document:docs/keboola/auth.md''}"
  have mem: "''Issue:42'' \<in> S" "''Concept:StorageAPI'' \<in> S" "''Concept:Authentication'' \<in> S"
    "''Document:docs/keboola/auth.md'' \<in> S"
    by (simp_all add: S_def)
  have others: "filter (\<lambda>n. nid n \<notin> S) (nodes g7) = filter (\<lambda>n. nid n \<notin> S) (nodes g)"
    unfolding defs by (simp add: nodes_add_edge others_add_node mem)
  have keys: "set (map edge_key (edges g7)) =
          set (map edge_key (edges g)) \<union>
            {(''Issue:42'', ''Concept:StorageAPI'', ''ABOUT''),
             (''Issue:42'', ''Concept:Authentication'', ''ABOUT''),
             (''Issue:42'', ''Document:docs/keboola/auth.md'', ''ABOUT'')}"
    unfolding defs by (simp only: keys_add_edge edges_add_node) blast
  obtain e3 where e3: "edges g3 = edges g @ e3"
      "set (map edge_key e3) \<subseteq> {(''Issue:42'', ''Concept:StorageAPI'', ''ABOUT'')}"
    using edges_add_edge_grow[of g2 "clk 2" "''Issue:42''" "''Concept:StorageAPI''" "''ABOUT''" Map.empty]
    unfolding g3_def[symmetric] by (auto simp: g2_def g1_def edges_add_node)
  obtain e5 where e5: "edges g5 = edges g3 @ e5"
      "set (map edge_key e5) \<subseteq> {(''Issue:42'', ''Concept:Authentication'', ''ABOUT'')}"
    using edges_add_edge_grow[of g4 "clk 4" "''Issue:42''" "''Concept:Authentication''" "''ABOUT''" Map.empty]
    unfolding g5_def[symmetric] by (auto simp: g4_def edges_add_node)
  obtain e7 where e7: "edges g7 = edges g5 @ e7"
      "set (map edge_key e7) \<subseteq> {(''Issue:42'', ''Document:docs/keboola/auth.md'', ''ABOUT'')}"
    using edges_add_edge_grow[of g6 "clk 6" "''Issue:42''" "''Document:docs/keboola/auth.md''" "''ABOUT''" Map.empty]
    unfolding g7_def[symmetric] by (auto simp: g6_def edges_add_node)
  have grow: "\<exists>es. edges g7 = edges g @ es \<and>
              set (map edge_key es) \<subseteq>
                {(''Issue:42'', ''Concept:StorageAPI'', ''ABOUT''),
                 (''Issue:42'', ''Concept:Authentication'', ''ABOUT''),
                 (''Issue:42'', ''Document:docs/keboola/auth.md'', ''ABOUT'')}"
  proof (intro exI conjI)
    show "edges g7 = edges g @ (e3 @ e5 @ e7)" by (simp add: e3 e5 e7)
    show "set (map edge_key (e3 @ e5 @ e7)) \<subseteq>
                {(''Issue:42'', ''Concept:StorageAPI'', ''ABOUT''),
                 (''Issue:42'', ''Concept:Authentication'', ''ABOUT''),
                 (''Issue:42'', ''Document:docs/keboola/auth.md'', ''ABOUT'')}"
      using e3(2) e5(2) e7(2) by (simp only: map_append set_append) blast
  qed
  from rows status others[unfolded S_def] keys grow show ?thesis
    unfolding run by (simp only: prod.case)
qed

theorem issue_created_end_to_end_witness:
  "(case handle_issue_created empty_graph (\<lambda>k. 1) 42 (scenario_issue ''u'' ''c'') of
      (r, g') \<Rightarrow>
        r = Inr () \<and>
        set (map nid (nodes g')) =
          {''Issue:42'', ''Concept:StorageAPI'', ''Concept:Authentication'',
           ''Document:docs/keboola/auth.md''} \<and>
        length (nodes g') = 4 \<and>
        set (map edge_key (edges g')) =
          {(''Issue:42'', ''Concept:StorageAPI'', ''ABOUT''),
           (''Issue:42'', ''Concept:Authentication'', ''ABOUT''),
           (''Issue:42'', ''Document:docs/keboola/auth.md'', ''ABOUT'')})"
proof -
  let ?S = "{''Issue:42'', ''Concept:StorageAPI'', ''Concept:Authentication'',
             ''Document:docs/keboola/auth.md''}"
  obtain r g' where run: "handle_issue_created empty_graph (\<lambda>k. 1) 42 (scenario_issue ''u'' ''c'') = (r, g')"
    by (cases "handle_issue_created empty_graph (\<lambda>k. 1) 42 (scenario_issue ''u'' ''c'')")
  from issue_created_end_to_end[where g = empty_graph and clk = "\<lambda>k. 1" and url = "''u''"
      and created = "''c''"]
  have r: "r = Inr ()"
    and rows: "map node_row (filter (\<lambda>n. nid n = ''Issue:42'') (nodes g')) =
          [\<lparr>rid = ''Issue:42'', rtype = ''Issue'',
            rproperties = scenario_issue_props ''u'' ''c''\<rparr>]"
      "map node_row (filter (\<lambda>n. nid n = ''Concept:StorageAPI'') (nodes g')) =
          [\<lparr>rid = ''Concept:StorageAPI'', rtype = ''Concept'',
            rproperties = [''name'' \<mapsto> JStr ''StorageAPI'']\<rparr>]"
      "map node_row (filter (\<lambda>n. nid n = ''Concept:Authentication'') (nodes g')) =
          [\<lparr>rid = ''Concept:Authentication'', rtype = ''Concept'',
            rproperties = [''name'' \<mapsto> JStr ''Authentication'']\<rparr>]"
      "map node_row (filter (\<lambda>n. nid n = ''Document:docs/keboola/auth.md'') (nodes g')) =
          [\<lparr>rid = ''Document:docs/keboola/auth.md'', rtype = ''Document'',
            rproperties = [''path'' \<mapsto> JStr ''docs/keboola/auth.md'']\<rparr>]"
    and none: "filter (\<lambda>n. nid n \<notin> ?S) (nodes g') = []"
    and keys: "set (map edge_key (edges g')) =
          {(''Issue:42'', ''Concept:StorageAPI'', ''ABOUT''),
           (''Issue:42'', ''Concept:Authentication'', ''ABOUT''),
           (''Issue:42'', ''Document:docs/keboola/auth.md'', ''ABOUT'')}"
    unfolding run by (simp_all add: empty_graph_def)
  have one: "length (filter (\<lambda>n. nid n = ''Issue:42'') (nodes g')) = 1"
      "length (filter (\<lambda>n. nid n = ''Concept:StorageAPI'') (nodes g')) = 1"
      "length (filter (\<lambda>n. nid n = ''Concept:Authentication'') (nodes g')) = 1"
      "length (filter (\<lambda>n. nid n = ''Document:docs/keboola/auth.md'') (nodes g')) = 1"
    using rows[THEN arg_cong[of _ _ length]] by simp_all
  have in_S: "nid n \<in> ?S" if "n \<in> set (nodes g')" for n
    using none that unfolding filter_empty_conv by blast
  have ids: "set (map nid (nodes g')) = ?S"
  proof
    show "set (map nid (nodes g')) \<subseteq> ?S" using in_S by auto
    have "i \<in> set (map nid (nodes g'))" if "length (filter (\<lambda>n. nid n = i) (nodes g')) = 1" for i
    proof -
      from that have "filter (\<lambda>n. nid n = i) (nodes g') \<noteq> []" by auto
      then show ?thesis unfolding filter_empty_conv by auto
    qed
    with one show "?S \<subseteq> set (map nid (nodes g'))" by blast
  qed
  have split: "length (filter (\<lambda>n. nid n \<in> ?S) xs)
      = length (filter (\<lambda>n. nid n = ''Issue:42'') xs)
      + length (filter (\<lambda>n. nid n = ''Concept:StorageAPI'') xs)
      + length (filter (\<lambda>n. nid n = ''Concept:Authentication'') xs)
      + length (filter (\<lambda>n. nid n = ''Document:docs/keboola/auth.md'') xs)"
    for xs :: "node list"
    by (induction xs) auto
  have "length (nodes g') = length (filter (\<lambda>n. nid n \<in> ?S) (nodes g'))"
    using in_S by (simp add: filter_True del: insert_iff)
  also note split
  finally have "length (nodes g') = 4" using one by simp
  with r ids keys show ?thesis unfolding run by simp
qed

section \<open>Properties of the text scans\<close>

lemma dropWhile_stop: "\<not> P c \<Longrightarrow> dropWhile P (x @ c # rest) = dropWhile P x @ c # rest"
  by (induction x) auto

lemma prefix_stop:
  assumes "prefix kw (x @ c # rest)" and "c \<notin> set (tl kw)" and "x \<noteq> []"
  shows "prefix kw x"
proof -
  from assms(1) consider "prefix kw x" | us where "kw = x @ us" "prefix us (c # rest)"
    by (auto simp: prefix_append)
  then show ?thesis
  proof cases
    case 1
    then show ?thesis .
  next
    case 2
    show ?thesis
    proof (cases us)
      case Nil
      with 2 show ?thesis by simp
    next
      case (Cons u us')
      with 2 have "kw = x @ c # us'" by simp
      with assms(3) have "c \<in> set (tl kw)" by (cases x) auto
      with assms(2) show ?thesis by simp
    qed
  qed
qed

lemma match_alt_stop:
  assumes "match_alt kws (x @ c # rest) = Some (kw, r)" and "x \<noteq> []"
    and "\<forall>k\<in>set kws. c \<notin> set (tl k)"
  shows "prefix kw x \<and> r = drop (length kw) x @ c # rest \<and> kw \<in> set kws"
  using assms
proof (induction kws)
  case Nil
  then show ?case by simp
next
  case (Cons k kws)
  show ?case
  proof (cases "prefix k (x @ c # rest)")
    case True
    with Cons.prems have kw: "kw = k" and r: "r = drop (length k) (x @ c # rest)" by auto
    from True Cons.prems have p: "prefix k x" by (intro prefix_stop[of k x c rest]) auto
    then have "length k \<le> length x" by (rule prefix_length_le)
    with kw r p show ?thesis by simp
  next
    case False
    with Cons show ?thesis by auto
  qed
qed

lemma match_fixes_stop:
  assumes "match_fixes (x @ CHR ''f'' # rest) = Some (ds, r)" and "x \<noteq> []"
  shows "\<exists>x'. r = x' @ CHR ''f'' # rest \<and> length x' < length x"
proof -
  from assms(1) obtain kw r1 c r3 where
    a: "match_alt [''fixes'', ''closes'', ''resolves''] (x @ CHR ''f'' # rest) = Some (kw, r1)" and
    b: "dropWhile space_char r1 = c # r3" and c: "c = CHR ''#''" and
    d: "r = dropWhile digit_char r3"
    unfolding match_fixes_def
    by (auto simp: Let_def split: option.splits list.splits if_splits prod.splits)
  from match_alt_stop[OF a assms(2)]
  have p: "prefix kw x" and r1: "r1 = drop (length kw) x @ CHR ''f'' # rest"
    and kw: "kw \<in> set [''fixes'', ''closes'', ''resolves'']"
    by simp_all
  from kw have "0 < length kw" by auto
  moreover from p have "length kw \<le> length x" by (rule prefix_length_le)
  ultimately have l1: "length (drop (length kw) x) < length x" using assms(2) by simp
  have ns: "\<not> space_char (CHR ''f'')" and nd: "\<not> digit_char (CHR ''f'')"
    by (simp_all add: space_char_def digit_char_def)
  from b r1 have "dropWhile space_char (drop (length kw) x) @ CHR ''f'' # rest = c # r3"
    by (simp add: dropWhile_stop[of space_char "CHR ''f''", OF ns])
  with c obtain x3 where x3: "dropWhile space_char (drop (length kw) x) = CHR ''#'' # x3"
    and r3: "r3 = x3 @ CHR ''f'' # rest"
    by (cases "dropWhile space_char (drop (length kw) x)") auto
  have "length (dropWhile space_char (drop (length kw) x)) \<le> length (drop (length kw) x)"
    by (rule length_dropWhile_le)
  with x3 have l3: "length x3 < length (drop (length kw) x)" by simp
  have "length (dropWhile digit_char x3) \<le> length x3" by (rule length_dropWhile_le)
  with l1 l3 have "length (dropWhile digit_char x3) < length x" by simp
  moreover from d r3 have "r = dropWhile digit_char x3 @ CHR ''f'' # rest"
    by (simp add: dropWhile_stop[of digit_char "CHR ''f''", OF nd])
  ultimately show ?thesis by blast
qed

lemma match_fixes_here:
  assumes "takeWhile digit_char y = []"
  shows "match_fixes (''fixes #42'' @ y) = Some (''42'', y)"
proof -
  from assms have "dropWhile digit_char y = y"
    using takeWhile_dropWhile_id[of digit_char y] by simp
  with assms show ?thesis
    by (simp add: match_fixes_def space_char_def digit_char_def Let_def)
qed

lemma findall_fixes_finds:
  assumes "takeWhile digit_char y = []"
  shows "''42'' \<in> set (findall_fixes (x @ ''fixes #42'' @ y))"
proof (induction x rule: length_induct)
  case (1 x)
  show ?case
  proof (cases x)
    case Nil
    have "findall_fixes (''fixes #42'' @ y) = ''42'' # findall_fixes y"
      using match_fixes_here[OF assms] by simp
    with Nil show ?thesis by simp
  next
    case (Cons c x')
    have step: "findall_fixes (x @ ''fixes #42'' @ y) =
        (case match_fixes (x @ ''fixes #42'' @ y) of
           None \<Rightarrow> findall_fixes (x' @ ''fixes #42'' @ y)
         | Some (ds, r) \<Rightarrow> ds # findall_fixes r)"
      by (simp only: Cons append_Cons findall_fixes.simps)
    show ?thesis
    proof (cases "match_fixes (x @ ''fixes #42'' @ y)")
      case None
      with step 1 Cons show ?thesis by simp
    next
      case (Some m)
      obtain ds r where m: "m = (ds, r)" by (cases m)
      from Some m have "match_fixes (x @ CHR ''f'' # (''ixes #42'' @ y)) = Some (ds, r)" by simp
      from match_fixes_stop[OF this] Cons
      obtain x'' where "r = x'' @ ''fixes #42'' @ y" "length x'' < length x" by auto
      with 1 have "''42'' \<in> set (findall_fixes r)" by simp
      with step Some m show ?thesis by simp
    qed
  qed
qed

lemma lower_char_digit: "digit_char (lower_char c) \<Longrightarrow> digit_char c"
proof (cases "map_of (zip ''ABCDEFGHIJKLMNOPQRSTUVWXYZ'' ''abcdefghijklmnopqrstuvwxyz'') c")
  case None
  then show "digit_char (lower_char c) \<Longrightarrow> digit_char c" by (simp add: lower_char_def)
next
  case (Some l)
  have "l \<in> set ''abcdefghijklmnopqrstuvwxyz''"
    by (rule set_zip_rightD[OF map_of_SomeD[OF Some]])
  then have "\<not> digit_char l" unfolding digit_char_def by auto
  with Some show "digit_char (lower_char c) \<Longrightarrow> digit_char c" by (simp add: lower_char_def)
qed

lemma lower_no_digit:
  "takeWhile digit_char post = [] \<Longrightarrow> takeWhile digit_char (lower post) = []"
  by (cases post) (auto simp: lower_def dest: lower_char_digit split: if_splits)

lemma lower_append: "lower (a @ b) = lower a @ lower b"
  by (simp add: lower_def)

lemma lower_fixes_42: "lower ''fixes #42'' = ''fixes #42''"
  by code_simp

lemma findall_fixes_body:
  assumes "takeWhile digit_char post = []"
  shows "''42'' \<in> set (findall_fixes (lower (title @ '' '' @ pre @ ''fixes #42'' @ post)))"
proof -
  have "lower (title @ '' '' @ pre @ ''fixes #42'' @ post)
          = lower (title @ '' '' @ pre) @ ''fixes #42'' @ lower post"
    by (simp only: lower_append lower_fixes_42 append_assoc)
  with findall_fixes_finds[OF lower_no_digit[OF assms]] show ?thesis by simp
qed

section \<open>Properties of the pull-request handlers\<close>

lemma find_map_other:
  "i \<noteq> j \<Longrightarrow> (\<And>m. nid (u m) = nid m) \<Longrightarrow>
   find (\<lambda>m. nid m = i) (map (\<lambda>m. if nid m = j then u m else m) xs) = find (\<lambda>m. nid m = i) xs"
  by (induction xs) auto

lemma filter_other_map_update:
  "j \<noteq> i \<Longrightarrow> (\<And>m. nid (u m) = nid m) \<Longrightarrow>
   filter (\<lambda>m. nid m = j) (map (\<lambda>m. if nid m = i then u m else m) xs)
     = filter (\<lambda>m. nid m = j) xs"
  by (induction xs) auto

lemma map_ntype_map_update:
  "(\<And>m. ntype (u m) = ntype m) \<Longrightarrow>
   map ntype (map (\<lambda>m. if nid m = i then u m else m) xs) = map ntype xs"
  by (induction xs) auto

lemma update_node_status:
  assumes "get_node g i = Some n"
  shows "\<exists>g'. update_node g now i [''status'' \<mapsto> JStr s] = (Inr (), g') \<and>
           edges g' = edges g \<and>
           map nid (nodes g') = map nid (nodes g) \<and>
           map ntype (nodes g') = map ntype (nodes g) \<and>
           (\<forall>j. get_node g' j = (if j = i then Some (set_status s now n) else get_node g j)) \<and>
           (\<forall>j. j \<noteq> i \<longrightarrow> filter (\<lambda>m. nid m = j) (nodes g') = filter (\<lambda>m. nid m = j) (nodes g))"
proof -
  let ?u = "\<lambda>m. m\<lparr>properties := properties n ++ [''status'' \<mapsto> JStr s], updated_at := now\<rparr>"
  let ?g' = "g\<lparr>nodes := map (\<lambda>m. if nid m = i then ?u m else m) (nodes g)\<rparr>"
  have run: "update_node g now i [''status'' \<mapsto> JStr s] = (Inr (), ?g')"
    using assms by (simp add: update_node_def)
  have a: "map nid (nodes ?g') = map nid (nodes g)" by (simp add: map_nid_map_update)
  have b: "map ntype (nodes ?g') = map ntype (nodes g)" by (simp add: map_ntype_map_update)
  have c: "get_node ?g' j = (if j = i then Some (set_status s now n) else get_node g j)" for j
    using assms by (simp add: get_node_def find_map_update find_map_other set_status_def)
  have d: "filter (\<lambda>m. nid m = j) (nodes ?g') = filter (\<lambda>m. nid m = j) (nodes g)" if "j \<noteq> i" for j
    using that by (simp add: filter_other_map_update)
  from run a b c d show ?thesis by (intro exI[of _ ?g']) simp
qed

lemma node_row_set_status: "node_row (set_status s now n) = with_status s (node_row n)"
  by (simp add: set_status_def with_status_def node_row_def)

lemma with_status_idem: "with_status s (with_status s r) = with_status s r"
  by (simp add: with_status_def)

lemma close_issues_run:
  assumes "\<forall>r\<in>set rs. rtype r = ''Issue'' \<longrightarrow>
             get_node g (rid r) \<noteq> None \<and> rproperties r ''number'' \<noteq> None"
  shows "\<exists>g'. close_issues g clk k rs = (Inr (), g') \<and>
           edges g' = edges g \<and>
           (\<forall>i. map_option node_row (get_node g' i) =
              (if i \<in> rid ` {r \<in> set rs. rtype r = ''Issue''}
               then map_option (with_status ''closed'' \<circ> node_row) (get_node g i)
               else map_option node_row (get_node g i)))"
  using assms
proof (induction rs arbitrary: g k)
  case Nil
  then show ?case by simp
next
  case (Cons r rs)
  show ?case
  proof (cases "rtype r = ''Issue''")
    case False
    from Cons.prems have "\<forall>r\<in>set rs. rtype r = ''Issue'' \<longrightarrow>
             get_node g (rid r) \<noteq> None \<and> rproperties r ''number'' \<noteq> None"
      by simp
    from Cons.IH[OF this, of k] obtain g' where
      g': "close_issues g clk k rs = (Inr (), g')" "edges g' = edges g"
      "\<forall>i. map_option node_row (get_node g' i) =
              (if i \<in> rid ` {r \<in> set rs. rtype r = ''Issue''}
               then map_option (with_status ''closed'' \<circ> node_row) (get_node g i)
               else map_option node_row (get_node g i))"
      by blast
    have "{x \<in> set (r # rs). rtype x = ''Issue''} = {x \<in> set rs. rtype x = ''Issue''}"
      using False by auto
    with g' False show ?thesis by simp
  next
    case True
    with Cons.prems obtain n num where n: "get_node g (rid r) = Some n"
      and num: "rproperties r ''number'' = Some num"
      by auto
    from update_node_status[OF n, of "clk k" "''closed''"] obtain g1 where
      g1: "update_node g (clk k) (rid r) [''status'' \<mapsto> JStr ''closed''] = (Inr (), g1)"
      "edges g1 = edges g"
      "\<forall>j. get_node g1 j
             = (if j = rid r then Some (set_status ''closed'' (clk k) n) else get_node g j)"
      by blast
    have "\<forall>x\<in>set rs. rtype x = ''Issue'' \<longrightarrow>
             get_node g1 (rid x) \<noteq> None \<and> rproperties x ''number'' \<noteq> None"
      using Cons.prems g1(3) by simp
    from Cons.IH[OF this, of "k + 1"] obtain g' where
      g': "close_issues g1 clk (k + 1) rs = (Inr (), g')" "edges g' = edges g1"
      "\<forall>i. map_option node_row (get_node g' i) =
              (if i \<in> rid ` {r \<in> set rs. rtype r = ''Issue''}
               then map_option (with_status ''closed'' \<circ> node_row) (get_node g1 i)
               else map_option node_row (get_node g1 i))"
      by blast
    have run: "close_issues g clk k (r # rs) = (Inr (), g')"
      using True g1(1) num g'(1) by simp
    have s: "{x \<in> set (r # rs). rtype x = ''Issue''} = insert r {x \<in> set rs. rtype x = ''Issue''}"
      using True by auto
    have "map_option node_row (get_node g' i) =
              (if i \<in> rid ` {x \<in> set (r # rs). rtype x = ''Issue''}
               then map_option (with_status ''closed'' \<circ> node_row) (get_node g i)
               else map_option node_row (get_node g i))" for i
      unfolding s using g'(3) g1(3) n
      by (simp add: node_row_set_status with_status_idem)
    with run g'(2) g1(2) show ?thesis by simp
  qed
qed

lemma in_find_related:
  assumes "n \<in> set (nodes g)" and "e \<in> set (edges g)"
    and "from_id e = q \<or> to_id e = q" and "relationship_matches rel e"
    and "to_id e = nid n \<or> from_id e = nid n"
  shows "node_row n \<in> set (find_related g q rel)"
  using assms unfolding find_related_concat edge_rows_def by auto

lemma find_related_stored: "set (find_related g q rel) \<subseteq> node_row ` set (nodes g)"
  by (auto simp: find_related_concat edge_rows_def)

lemma affected_skills_total: "\<exists>skills. affected_skills g docs = Some skills"
proof (induction docs)
  case Nil
  then show ?case by simp
next
  case (Cons doc docs)
  obtain deps where "find_dependents g (rid doc) 3 = Some deps"
    unfolding find_dependents_def using find_dependents_loop_total by blast
  with Cons show ?case by auto
qed

lemma get_node_Some_mem: "get_node g i = Some n \<Longrightarrow> n \<in> set (nodes g) \<and> nid n = i"
  by (auto simp: get_node_def find_Some_iff in_set_conv_nth)

lemma get_node_rows:
  "get_node g i = (case filter (\<lambda>n. nid n = i) (nodes g) of [] \<Rightarrow> None | n # ns \<Rightarrow> Some n)"
proof -
  have "find P xs = (case filter P xs of [] \<Rightarrow> None | x # ys \<Rightarrow> Some x)"
    for P and xs :: "node list"
    by (induction xs) auto
  then show ?thesis by (simp add: get_node_def)
qed

lemma nodes_link_fixed_issues: "nodes (link_fixed_issues g clk k p ms) = nodes g"
  by (induction ms arbitrary: g k) (simp_all add: nodes_add_edge Let_def)

lemma keys_add_edge_image:
  "edge_key ` set (edges (add_edge g now f t r p)) = insert (f, t, r) (edge_key ` set (edges g))"
  using keys_add_edge[of g now f t r p] by simp

lemma keys_link_fixed_issues:
  "set (map edge_key (edges (link_fixed_issues g clk k p ms)))
     = set (map edge_key (edges g)) \<union> (\<lambda>m. (''Issue:'' @ m, p, ''FIXED_BY'')) ` set ms"
  by (induction ms arbitrary: g k) (simp_all add: keys_add_edge_image Let_def)

lemma keys_link_modified_files:
  "set (map edge_key (edges (link_modified_files g clk k p fs)))
     = set (map edge_key (edges g)) \<union> (\<lambda>f. (p, ''Document:'' @ f, ''MODIFIES'')) ` set fs"
  by (induction fs arbitrary: g k) (simp_all add: keys_add_edge_image edges_add_node Let_def)

lemma rows_link_modified_files:
  "\<not> prefix ''Document:'' i \<Longrightarrow>
   filter (\<lambda>n. nid n = i) (nodes (link_modified_files g clk k p fs))
     = filter (\<lambda>n. nid n = i) (nodes g)"
proof (induction fs arbitrary: g k)
  case Nil
  then show ?case by simp
next
  case (Cons f fs)
  from Cons.prems have "i \<noteq> ''Document'' @ '':'' @ f" by auto
  then have "filter (\<lambda>n. nid n = i)
        (nodes (snd (add_node g (clk k) ''Document'' f [''path'' \<mapsto> JStr f])))
     = filter (\<lambda>n. nid n = i) (nodes g)"
    by (simp only: rows_add_node if_False)
  with Cons show ?case by (simp add: Let_def nodes_add_edge)
qed

lemma issues_numbered_add_node:
  "issues_numbered g \<Longrightarrow> t \<noteq> ''Issue'' \<Longrightarrow> issues_numbered (snd (add_node g now t l P))"
  by (auto simp: issues_numbered_def add_node_def Let_def list_all_iff)

lemma issues_numbered_add_edge:
  "issues_numbered (add_edge g now f t r p) = issues_numbered g"
  by (simp add: issues_numbered_def nodes_add_edge)

lemma issues_numbered_link_fixed_issues:
  "issues_numbered (link_fixed_issues g clk k p ms) = issues_numbered g"
  by (simp add: issues_numbered_def nodes_link_fixed_issues)

lemma issues_numbered_link_modified_files:
  "issues_numbered g \<Longrightarrow> issues_numbered (link_modified_files g clk k p fs)"
  by (induction fs arbitrary: g k)
     (simp_all add: Let_def issues_numbered_add_edge issues_numbered_add_node)

lemma str_int_7: "str_int 7 = ''7''"
  by code_simp

lemma update_node_run:
  "get_node g i = Some n \<Longrightarrow>
   update_node g now i P =
     (Inr (), g\<lparr>nodes := map (\<lambda>m. if nid m = i
                                  then m\<lparr>properties := properties n ++ P, updated_at := now\<rparr>
                                  else m) (nodes g)\<rparr>)"
  by (simp add: update_node_def)

lemma filter_same_map_update:
  "(\<And>m. nid (u m) = nid m) \<Longrightarrow>
   filter (\<lambda>m. nid m = i) (map (\<lambda>m. if nid m = i then u m else m) xs)
     = map u (filter (\<lambda>m. nid m = i) xs)"
  by (induction xs) auto

lemma get_node_None_iff: "get_node g i = None \<longleftrightarrow> i \<notin> nid ` set (nodes g)"
  by (auto simp: get_node_def find_None_iff)

lemma add_node_fst: "fst (add_node g now t l P) = t @ '':'' @ l"
  by (simp add: add_node_def Let_def)

text \<open>
  The hypothesis of the merge cascade on the issue nodes holds on the empty store and is
  kept by the two handlers that create nodes.
\<close>

lemma issues_numbered_empty: "issues_numbered empty_graph"
  by (simp add: issues_numbered_def empty_graph_def)

lemma issues_numbered_add_issue:
  "issues_numbered g \<Longrightarrow> P ''number'' \<noteq> None \<Longrightarrow> issues_numbered (snd (add_node g now t l P))"
  by (auto simp: issues_numbered_def add_node_def Let_def list_all_iff)

lemma issues_numbered_link_concepts:
  "issues_numbered g \<Longrightarrow> issues_numbered (snd (link_concepts g clk k i cs))"
  by (induction cs arbitrary: g k)
     (auto simp: Let_def issues_numbered_add_edge issues_numbered_add_node split: sum.splits)

lemma issues_numbered_link_documents:
  "issues_numbered g \<Longrightarrow> issues_numbered (link_documents g clk k i fs)"
  by (induction fs arbitrary: g k)
     (simp_all add: Let_def issues_numbered_add_edge issues_numbered_add_node)

lemma issues_numbered_handle_issue_created:
  assumes "issues_numbered g"
  shows "issues_numbered (snd (handle_issue_created g clk n d))"
  using assms unfolding handle_issue_created_def
  by (auto simp: Let_def case_prod_beta
      intro!: issues_numbered_link_concepts issues_numbered_link_documents
        issues_numbered_add_issue
      split: option.splits sum.splits)

lemma issues_numbered_handle_pr_created:
  assumes "issues_numbered g"
  shows "issues_numbered (snd (handle_pr_created g clk n d))"
  using assms unfolding handle_pr_created_def
  by (auto simp: Let_def case_prod_beta issues_numbered_link_fixed_issues
        issues_numbered_add_node
      intro!: issues_numbered_link_modified_files
      split: option.splits)

text \<open>
  C6. Let the store hold the node \<open>Issue:42\<close> of type \<open>Issue\<close> (with any properties, so in
  particular with status "open"), and let every issue node carry its number. For a
  pull-request payload with the required fields whose body contains the reference
  "fixes #42" (not followed by a further digit, which would make it another number) and
  whose changed files name \<open>docs/keboola/auth.md\<close>, \<^verbatim>\<open>handle_pr_created\<close> for number 7
  succeeds, leaves \<open>Issue:42\<close> as it was and creates the edges \<open>Issue:42\<close> \<open>FIXED_BY\<close>
  \<open>PullRequest:7\<close> and \<open>PullRequest:7\<close> \<open>MODIFIES\<close> \<open>Document:docs/keboola/auth.md\<close>. A following
  \<^verbatim>\<open>handle_pr_merged\<close> for number 7 returns, with the status of \<open>PullRequest:7\<close> "merged" and
  the properties of \<open>Issue:42\<close> those it had with the status set to "closed"; these are
  the properties that \<^verbatim>\<open>handle_issue_closed\<close> for 42 leaves, and the edges are untouched.
\<close>

theorem merge_cascade:
  assumes issue: "get_node g ''Issue:42'' = Some n" "ntype n = ''Issue''"
    and numbered: "issues_numbered g"
    and payload: "p_title d = Some title" "p_html_url d = Some url"
      "p_created_at d = Some created"
      "p_body d = Some (pre @ ''fixes #42'' @ post)" "takeWhile digit_char post = []"
      "p_changed_files d = Some files" "''docs/keboola/auth.md'' \<in> set files"
  shows "\<exists>g1. handle_pr_created g clk 7 d = (Inr (), g1) \<and>
           (''Issue:42'', ''PullRequest:7'', ''FIXED_BY'') \<in> set (map edge_key (edges g1)) \<and>
           (''PullRequest:7'', ''Document:docs/keboola/auth.md'', ''MODIFIES'')
              \<in> set (map edge_key (edges g1)) \<and>
           get_node g1 ''Issue:42'' = Some n \<and>
           (\<exists>skills g2 pr closed.
              handle_pr_merged g1 clk' 7 = Some (Inr skills, g2) \<and>
              get_node g2 ''PullRequest:7'' = Some pr \<and>
              properties pr ''status'' = Some (JStr ''merged'') \<and>
              get_node g2 ''Issue:42'' = Some closed \<and>
              properties closed = (properties n)(''status'' \<mapsto> JStr ''closed'') \<and>
              map_option properties (get_node (snd (handle_issue_closed g1 clk'' 42)) ''Issue:42'')
                = Some (properties closed) \<and>
              edges g2 = edges g1)"
proof -
  define P where "P = [''number'' \<mapsto> JInt 7, ''title'' \<mapsto> JStr title,
      ''body'' \<mapsto> JStr (pre @ ''fixes #42'' @ post), ''status'' \<mapsto> JStr ''open'',
      ''url'' \<mapsto> JStr url, ''created_at'' \<mapsto> JStr created,
      ''additions'' \<mapsto> JInt (case p_additions d of None \<Rightarrow> 0 | Some a \<Rightarrow> a),
      ''deletions'' \<mapsto> JInt (case p_deletions d of None \<Rightarrow> 0 | Some a \<Rightarrow> a)]"
  define ms where "ms = findall_fixes (lower (title @ '' '' @ pre @ ''fixes #42'' @ post))"
  define ga where "ga = snd (add_node g (clk 0) ''PullRequest'' ''7'' P)"
  define gb where "gb = link_fixed_issues ga clk 1 ''PullRequest:7'' ms"
  define g1 where "g1 = link_modified_files gb clk (1 + length ms) ''PullRequest:7'' files"
  define row where "row = \<lparr>nid = ''PullRequest:7'', ntype = ''PullRequest'', properties = P,
      created_at = clk 0, updated_at = clk 0\<rparr>"
  have pair: "add_node g (clk 0) ''PullRequest'' ''7'' P = (''PullRequest:7'', ga)"
    unfolding ga_def by (simp add: add_node_def Let_def)
  have run1: "handle_pr_created g clk 7 d = (Inr (), g1)"
    unfolding handle_pr_created_def g1_def gb_def ms_def
    by (simp only: payload option.case str_int_7 Let_def P_def[symmetric] pair prod.case)
  \<comment> \<open>the store after the creation of the pull request\<close>
  have "''42'' \<in> set ms"
    unfolding ms_def by (rule findall_fixes_body[OF payload(5)])
  then have "(''Issue:'' @ ''42'', ''PullRequest:7'', ''FIXED_BY'')
      \<in> set (map edge_key (edges gb))"
    unfolding gb_def keys_link_fixed_issues by blast
  then have key1: "(''Issue:42'', ''PullRequest:7'', ''FIXED_BY'') \<in> set (map edge_key (edges g1))"
    unfolding g1_def keys_link_modified_files by simp
  have "(''PullRequest:7'', ''Document:'' @ ''docs/keboola/auth.md'', ''MODIFIES'')
      \<in> set (map edge_key (edges g1))"
    unfolding g1_def keys_link_modified_files using payload(7) by blast
  then have key2: "(''PullRequest:7'', ''Document:docs/keboola/auth.md'', ''MODIFIES'')
      \<in> set (map edge_key (edges g1))"
    by simp
  have rows_pr: "filter (\<lambda>m. nid m = ''PullRequest:7'') (nodes g1) = [row]"
    unfolding g1_def gb_def ga_def row_def
    by (simp add: rows_link_modified_files nodes_link_fixed_issues rows_add_node)
  have rows_42: "filter (\<lambda>m. nid m = ''Issue:42'') (nodes g1)
      = filter (\<lambda>m. nid m = ''Issue:42'') (nodes g)"
    unfolding g1_def gb_def ga_def
    by (simp add: rows_link_modified_files nodes_link_fixed_issues rows_add_node)
  have get_42: "get_node g1 ''Issue:42'' = Some n"
    using issue(1) unfolding get_node_rows rows_42 .
  have get_pr: "get_node g1 ''PullRequest:7'' = Some row"
    unfolding get_node_rows rows_pr by simp
  have num1: "issues_numbered g1"
    unfolding g1_def gb_def ga_def
    by (intro issues_numbered_link_modified_files)
       (simp add: issues_numbered_link_fixed_issues issues_numbered_add_node numbered)
  \<comment> \<open>the merge: the status of the pull request\<close>
  define u where "u = (\<lambda>m :: node. m\<lparr>properties := properties row ++ [''status'' \<mapsto> JStr ''merged''],
      updated_at := clk' 0\<rparr>)"
  define g1' where "g1' = g1\<lparr>nodes := map (\<lambda>m. if nid m = ''PullRequest:7'' then u m else m) (nodes g1)\<rparr>"
  have upd: "update_node g1 (clk' 0) ''PullRequest:7'' [''status'' \<mapsto> JStr ''merged'']
      = (Inr (), g1')"
    unfolding g1'_def u_def by (rule update_node_run[OF get_pr])
  have nid_u: "nid (u m) = nid m" for m by (simp add: u_def)
  have edges1': "edges g1' = edges g1" by (simp add: g1'_def)
  have rows_pr': "filter (\<lambda>m. nid m = ''PullRequest:7'') (nodes g1') = [u row]"
    by (simp add: g1'_def filter_same_map_update[OF nid_u] rows_pr)
  have rows_42': "filter (\<lambda>m. nid m = ''Issue:42'') (nodes g1')
      = filter (\<lambda>m. nid m = ''Issue:42'') (nodes g1)"
    by (simp add: g1'_def filter_other_map_update[OF _ nid_u])
  have get_42': "get_node g1' ''Issue:42'' = Some n"
    using get_42 unfolding get_node_rows rows_42' .
  have get_pr': "get_node g1' ''PullRequest:7'' = Some (u row)"
    unfolding get_node_rows rows_pr' by simp
  have type_pr: "ntype m = ''PullRequest''" if "m \<in> set (nodes g1')" "nid m = ''PullRequest:7''" for m
  proof -
    from that have "m \<in> set (filter (\<lambda>m. nid m = ''PullRequest:7'') (nodes g1'))" by simp
    then show ?thesis unfolding rows_pr' by (simp add: u_def row_def)
  qed
  have num1': "properties m ''number'' \<noteq> None" if "m \<in> set (nodes g1')" "ntype m = ''Issue''" for m
  proof -
    from that type_pr have "nid m \<noteq> ''PullRequest:7''" by auto
    with that(1) have "m \<in> set (nodes g1)" by (auto simp: g1'_def nid_u split: if_splits)
    with num1 that(2) show ?thesis by (auto simp: issues_numbered_def list_all_iff)
  qed
  \<comment> \<open>the merge: the linked issues\<close>
  define rs where "rs = find_related g1' ''PullRequest:7'' (Some ''FIXED_BY'')"
  have stored: "\<exists>m\<in>set (nodes g1'). r = node_row m" if "r \<in> set rs" for r
    using that find_related_stored[of g1' "''PullRequest:7''" "Some ''FIXED_BY''"]
    unfolding rs_def by blast
  have pre: "\<forall>r\<in>set rs. rtype r = ''Issue'' \<longrightarrow>
      get_node g1' (rid r) \<noteq> None \<and> rproperties r ''number'' \<noteq> None"
  proof (intro ballI impI)
    fix r assume "r \<in> set rs" and t: "rtype r = ''Issue''"
    then obtain m where m: "m \<in> set (nodes g1')" "r = node_row m" using stored by blast
    with t have "ntype m = ''Issue''" by (simp add: node_row_def)
    from num1'[OF m(1) this] m
    show "get_node g1' (rid r) \<noteq> None \<and> rproperties r ''number'' \<noteq> None"
      by (auto simp: node_row_def get_node_None_iff)
  qed
  from close_issues_run[OF pre, of clk' 1] obtain g2 where
    close: "close_issues g1' clk' 1 rs = (Inr (), g2)" and edges2: "edges g2 = edges g1'" and
    get2: "\<And>i. map_option node_row (get_node g2 i) =
              (if i \<in> rid ` {r \<in> set rs. rtype r = ''Issue''}
               then map_option (with_status ''closed'' \<circ> node_row) (get_node g1' i)
               else map_option node_row (get_node g1' i))"
    by blast
  have in42: "''Issue:42'' \<in> rid ` {r \<in> set rs. rtype r = ''Issue''}"
  proof -
    from get_node_Some_mem[OF get_42'] have n: "n \<in> set (nodes g1')" "nid n = ''Issue:42''"
      by simp_all
    from key1 edges1' obtain e where e: "e \<in> set (edges g1')"
      "edge_key e = (''Issue:42'', ''PullRequest:7'', ''FIXED_BY'')"
      by auto
    then have "from_id e = ''Issue:42''" "to_id e = ''PullRequest:7''" "relationship e = ''FIXED_BY''"
      by (simp_all add: edge_key_def)
    with n e(1) have "node_row n \<in> set rs"
      unfolding rs_def
      by (intro in_find_related[of n g1' e]) (simp_all add: relationship_matches_def)
    moreover have "rid (node_row n) = ''Issue:42''" "rtype (node_row n) = ''Issue''"
      using n issue(2) by (simp_all add: node_row_def)
    ultimately show ?thesis by force
  qed
  have out_pr: "''PullRequest:7'' \<notin> rid ` {r \<in> set rs. rtype r = ''Issue''}"
  proof
    assume "''PullRequest:7'' \<in> rid ` {r \<in> set rs. rtype r = ''Issue''}"
    then obtain r where r: "r \<in> set rs" "rtype r = ''Issue''" "rid r = ''PullRequest:7''" by auto
    from stored[OF r(1)] obtain m where m: "m \<in> set (nodes g1')" "r = node_row m" by blast
    with r have "nid m = ''PullRequest:7''" "ntype m = ''Issue''" by (simp_all add: node_row_def)
    with type_pr[OF m(1)] show False by simp
  qed
  from get2[of "''PullRequest:7''"] out_pr get_pr'
  obtain pr where fin_pr: "get_node g2 ''PullRequest:7'' = Some pr" "node_row pr = node_row (u row)"
    by auto
  from get2[of "''Issue:42''"] in42 get_42'
  obtain closed where fin_42: "get_node g2 ''Issue:42'' = Some closed"
    "node_row closed = with_status ''closed'' (node_row n)"
    by auto
  have props_pr: "properties pr ''status'' = Some (JStr ''merged'')"
    using arg_cong[OF fin_pr(2), of rproperties] by (simp add: node_row_def u_def)
  have props_42: "properties closed = (properties n)(''status'' \<mapsto> JStr ''closed'')"
    using arg_cong[OF fin_42(2), of rproperties] by (simp add: node_row_def with_status_def)
  \<comment> \<open>the merge: the report\<close>
  obtain skills where skills:
    "affected_skills g2 (find_related g2 ''PullRequest:7'' (Some ''MODIFIES'')) = Some skills"
    using affected_skills_total by blast
  have run2: "handle_pr_merged g1 clk' 7 = Some (Inr (remdups skills), g2)"
    unfolding handle_pr_merged_def
    by (simp only: str_int_7 Let_def append.simps upd prod.case sum.case rs_def[symmetric] close
        skills option.case)
  \<comment> \<open>closing the issue directly\<close>
  have direct: "map_option properties (get_node (snd (handle_issue_closed g1 clk'' 42)) ''Issue:42'')
      = Some (properties closed)"
    using update_node_status[OF get_42, of "clk'' 0" "''closed''"] props_42
    by (auto simp: handle_issue_closed_def str_int_42 Let_def set_status_def)
  have "edges g2 = edges g1" using edges2 edges1' by simp
  then show ?thesis
    using run1 key1 key2 get_42 run2 fin_pr(1) props_pr fin_42(1) props_42 direct by blast
qed

lemma scenario_store_nodes:
  "nodes scenario_store =
     [\<lparr>nid = ''Issue:42'', ntype = ''Issue'', properties = scenario_issue_props ''u'' ''c'',
       created_at = 1, updated_at = 1\<rparr>,
      \<lparr>nid = ''Concept:StorageAPI'', ntype = ''Concept'',
       properties = [''name'' \<mapsto> JStr ''StorageAPI''], created_at = 1, updated_at = 1\<rparr>,
      \<lparr>nid = ''Concept:Authentication'', ntype = ''Concept'',
       properties = [''name'' \<mapsto> JStr ''Authentication''], created_at = 1, updated_at = 1\<rparr>,
      \<lparr>nid = ''Document:docs/keboola/auth.md'', ntype = ''Document'',
       properties = [''path'' \<mapsto> JStr ''docs/keboola/auth.md''],
       created_at = 1, updated_at = 1\<rparr>]"
  unfolding scenario_store_def handle_issue_created_scenario
  by (simp add: nodes_add_edge add_node_def empty_graph_def Let_def)

theorem merge_cascade_witness:
  "get_node scenario_store ''Issue:42''
     = Some \<lparr>nid = ''Issue:42'', ntype = ''Issue'', properties = scenario_issue_props ''u'' ''c'',
             created_at = 1, updated_at = 1\<rparr> \<and>
   scenario_issue_props ''u'' ''c'' ''status'' = Some (JStr ''open'') \<and>
   issues_numbered scenario_store \<and>
   p_body scenario_pr = Some ([] @ ''fixes #42'' @ []) \<and>
   p_changed_files scenario_pr = Some [''docs/keboola/auth.md''] \<and>
   (\<exists>g1. handle_pr_created scenario_store (\<lambda>k. 2) 7 scenario_pr = (Inr (), g1) \<and>
      (''Issue:42'', ''PullRequest:7'', ''FIXED_BY'') \<in> set (map edge_key (edges g1)) \<and>
      (''PullRequest:7'', ''Document:docs/keboola/auth.md'', ''MODIFIES'')
         \<in> set (map edge_key (edges g1)) \<and>
      (\<exists>skills g2 pr closed.
         handle_pr_merged g1 (\<lambda>k. 3) 7 = Some (Inr skills, g2) \<and>
         get_node g2 ''PullRequest:7'' = Some pr \<and>
         properties pr ''status'' = Some (JStr ''merged'') \<and>
         get_node g2 ''Issue:42'' = Some closed \<and>
         properties closed = (scenario_issue_props ''u'' ''c'')(''status'' \<mapsto> JStr ''closed'') \<and>
         map_option properties (get_node (snd (handle_issue_closed g1 (\<lambda>k. 3) 42)) ''Issue:42'')
           = Some (properties closed) \<and>
         edges g2 = edges g1))"
proof -
  let ?n = "\<lparr>nid = ''Issue:42'', ntype = ''Issue'', properties = scenario_issue_props ''u'' ''c'',
             created_at = 1, updated_at = 1\<rparr>"
  have a: "get_node scenario_store ''Issue:42'' = Some ?n"
    by (simp add: get_node_def scenario_store_nodes)
  have b: "ntype ?n = ''Issue''" by simp
  have c: "issues_numbered scenario_store"
    by (simp add: issues_numbered_def scenario_store_nodes scenario_issue_props_def)
  have d: "p_title scenario_pr = Some ''Fix auth docs''" "p_html_url scenario_pr = Some ''v''"
    "p_created_at scenario_pr = Some ''w''" "p_body scenario_pr = Some ([] @ ''fixes #42'' @ [])"
    "takeWhile digit_char [] = []"
    "p_changed_files scenario_pr = Some [''docs/keboola/auth.md'']"
    "''docs/keboola/auth.md'' \<in> set [''docs/keboola/auth.md'']"
    by (simp_all add: scenario_pr_def)
  have e: "scenario_issue_props ''u'' ''c'' ''status'' = Some (JStr ''open'')"
    by (simp add: scenario_issue_props_def)
  from merge_cascade[OF a b c d, of "\<lambda>k. 2" "\<lambda>k. 3" "\<lambda>k. 3"] a c d(4,6) e show ?thesis
    by (simp only: node.simps) blast
qed

end
